theory Spec2Isabelle
  imports Complex_Main "HOL-Library.Sublist" "HOL-Library.Code_Target_Numeral"
begin

section \<open>Numbers and strings\<close>

text \<open>
  A JavaScript number is a double.  The model has \<^verbatim>\<open>NaN\<close>, the two infinities and the
  finite doubles; a finite double is held as the rational number it denotes (the sign of
  a zero, which nothing here observes, is dropped).  A rational that is not a double
  stands for no number; \<open>isNumber\<close> below is the test.
\<close>

datatype number = NaN | NegInfinity | Finite rat | Infinity

text \<open>The number of binary digits of a natural number.\<close>

fun bitLength :: "nat \<Rightarrow> nat" where
  "bitLength n = (if n = 0 then 0 else Suc (bitLength (n div 2)))"

declare bitLength.simps [simp del]

text \<open>
  Rounding a rational that is not negative to 53 significant binary digits, counted from
  the leading digit of its integer part: the result is the nearest multiple of \<open>u\<close>,
  the weight of the 53rd digit (\<open>u\<close> is 1 when the integer part has fewer digits), and
  of two equally near multiples the even one.
\<close>

definition roundSignificand :: "rat \<Rightarrow> nat" where
  "roundSignificand x =
     (let u = 2 ^ (bitLength (nat \<lfloor>x\<rfloor>) - 53);
          d = nat \<lfloor>x / of_nat u\<rfloor>;
          r = x / of_nat u - of_nat d
      in if r < 1 / 2 then d * u
         else if 1 / 2 < r then (d + 1) * u
         else if even d then d * u else (d + 1) * u)"

text \<open>
  The double that a real result is rounded to (round to nearest, ties to even).  The
  finite doubles are the multiples of \<^verbatim>\<open>2^-1074\<close> by a natural number of at most 53
  significant binary digits, below \<^verbatim>\<open>2^1024\<close> in magnitude; a result that rounds to
  \<^verbatim>\<open>2^1024\<close> or beyond is an infinity.
\<close>

definition toDouble :: "rat \<Rightarrow> number" where
  "toDouble q =
     (let m = roundSignificand (\<bar>q\<bar> * 2 ^ 1074)
      in if 2 ^ 2098 \<le> m then (if q < 0 then NegInfinity else Infinity)
         else Finite (sgn q * of_nat m / 2 ^ 1074))"

definition isNumber :: "number \<Rightarrow> bool" where
  "isNumber x = (case x of Finite q \<Rightarrow> toDouble q = Finite q | _ \<Rightarrow> True)"

text \<open>
  The operators \<^verbatim>\<open><\<close> and \<^verbatim>\<open><=\<close> on numbers; \<^verbatim>\<open>a > b\<close> is \<open>b < a\<close> and \<^verbatim>\<open>a >= b\<close> is
  \<open>b \<le> a\<close>.  A comparison with \<^verbatim>\<open>NaN\<close> is false.
\<close>

instantiation number :: ord
begin

fun less_number :: "number \<Rightarrow> number \<Rightarrow> bool" where
  "less_number (Finite x) (Finite y) = (x < y)"
| "less_number (Finite x) Infinity = True"
| "less_number NegInfinity (Finite y) = True"
| "less_number NegInfinity Infinity = True"
| "less_number _ _ = False"

definition less_eq_number :: "number \<Rightarrow> number \<Rightarrow> bool" where
  "less_eq_number a b = (a \<noteq> NaN \<and> b \<noteq> NaN \<and> \<not> b < a)"

instance ..

end

text \<open>
  The operator \<^verbatim>\<open>==\<close> on two numbers (\<^verbatim>\<open>!=\<close> is its negation), \<^verbatim>\<open>Math.max\<close> of two
  numbers, and \<^verbatim>\<open>x + 1\<close>, which is also what \<^verbatim>\<open>x++\<close> stores.
\<close>

definition equals :: "number \<Rightarrow> number \<Rightarrow> bool" where
  "equals a b = (a \<noteq> NaN \<and> a = b)"

definition mathMax :: "number \<Rightarrow> number \<Rightarrow> number" where
  "mathMax a b = (if a = NaN \<or> b = NaN then NaN else if a < b then b else a)"

definition increment :: "number \<Rightarrow> number" where
  "increment x = (case x of Finite q \<Rightarrow> toDouble (q + 1) | _ \<Rightarrow> x)"

text \<open>
  A string of the model is the UTF-8 encoding of the JavaScript string, one \<open>char\<close> per
  byte.  Comparing two strings, concatenating them, testing for a prefix and splitting
  at an ASCII character give the same result on the encodings as on the strings.
\<close>

section \<open>Data model\<close>

text \<open>
  A tab object as the extension uses it (\<^verbatim>\<open>TabberInt.type.Tab\<close>).  Only \<^verbatim>\<open>url\<close> and
  \<^verbatim>\<open>index\<close> are required; the other properties may be \<^verbatim>\<open>undefined\<close>, which is
  \<open>None\<close> here.  The property \<^verbatim>\<open>id\<close> is called \<open>tab_id\<close>.
\<close>

record tab =
  url :: string
  index :: int
  tab_id :: "int option"
  windowId :: "int option"
  active :: "bool option"
  title :: "string option"

text \<open>The result of every comparison (\<^verbatim>\<open>TabberInt.type.TabDiff\<close>).\<close>

record tabdiff =
  major :: string
  minor :: string
  err :: bool

text \<open>
  A session (\<^verbatim>\<open>TabberInternal.TabberSession\<close>) with its five own properties.
  \<^verbatim>\<open>updateTime\<close> is a number or \<^verbatim>\<open>false\<close> ("no timestamp yet"); \<^verbatim>\<open>false\<close> is \<open>None\<close>.
\<close>

record session =
  description :: string
  generation :: number
  tabs :: "tab list"
  numtabs :: number
  updateTime :: "number option"

text \<open>
  \<^verbatim>\<open>new TabberSession(opt_initial)\<close> for a missing or numeric argument: the default
  session, with generation \<open>-1\<close> unless a number is given.
\<close>

definition TabberSession :: "number option \<Rightarrow> session" where
  "TabberSession opt_initial =
     \<lparr>description = ''default'',
      generation = (case opt_initial of Some g \<Rightarrow> g | None \<Rightarrow> Finite (- 1)),
      tabs = [],
      numtabs = Finite 0,
      updateTime = None\<rparr>"

text \<open>
  JavaScript prints a non-negative integer in decimal when it is concatenated to a
  string.
\<close>

fun dec :: "nat \<Rightarrow> string" where
  "dec n =
     (if n < 10 then [''0123456789'' ! n]
      else dec (n div 10) @ [''0123456789'' ! (n mod 10)])"

declare dec.simps [simp del]

section \<open>Diff engine (tabs.js, tabber\_session.js)\<close>

text \<open>
  \<^verbatim>\<open>getTabsetWinCount\<close>: the number of keys of an object that received one key per
  \<^verbatim>\<open>windowId\<close>, that is the number of distinct window ids.
\<close>

definition getTabsetWinCount :: "tab list \<Rightarrow> nat" where
  "getTabsetWinCount ts = length (remdups (map windowId ts))"

text \<open>\<^verbatim>\<open>getTabsDiff\<close>: urls first (major), then the active state (minor).\<close>

definition getTabsDiff :: "tab \<Rightarrow> tab \<Rightarrow> tabdiff" where
  "getTabsDiff tab1 tab2 =
     (if url tab1 \<noteq> url tab2
      then \<lparr>major = ''different URLs'', minor = '''', err = False\<rparr>
      else if active tab1 \<noteq> active tab2
      then \<lparr>major = '''', minor = ''a different active tab.'', err = False\<rparr>
      else \<lparr>major = '''', minor = '''', err = False\<rparr>)"

text \<open>
  The position-by-position loop of \<^verbatim>\<open>getTabsetDiff\<close>; it runs over two arrays of the
  same length, \<open>dif\<close> is the loop's accumulator.
\<close>

fun scanTabs :: "tab list \<Rightarrow> tab list \<Rightarrow> tabdiff \<Rightarrow> tabdiff" where
  "scanTabs (a # as) (b # bs) dif =
     (let diff = getTabsDiff a b in
      if major diff \<noteq> '''' then diff
      else scanTabs as bs
             (if minor diff \<noteq> '''' \<and> minor dif = '''' then dif\<lparr>minor := minor diff\<rparr>
              else dif))"
| "scanTabs _ _ dif = dif"

definition getTabsetDiff :: "tab list \<Rightarrow> tab list \<Rightarrow> tabdiff" where
  "getTabsetDiff tabs1 tabs2 =
     (let dif = \<lparr>major = '''', minor = '''', err = False\<rparr>;
          wincnt1 = getTabsetWinCount tabs1;
          wincnt2 = getTabsetWinCount tabs2
      in
      if length tabs1 \<noteq> length tabs2 then
        (if length tabs1 > length tabs2
         then dif\<lparr>major := dec (length tabs1 - length tabs2) @ '' fewer tabs''\<rparr>
         else dif\<lparr>major := dec (length tabs2 - length tabs1) @ '' more tabs''\<rparr>)
      else if wincnt1 \<noteq> wincnt2 then
        (if wincnt1 > wincnt2
         then dif\<lparr>major := dec (wincnt1 - wincnt2) @ '' fewer windows''\<rparr>
         else dif\<lparr>major := dec (wincnt2 - wincnt1) @ '' more windows''\<rparr>)
      else scanTabs tabs1 tabs2 dif)"

text \<open>
  \<^verbatim>\<open>updateTime\<close> is compared with \<^verbatim>\<open>!=\<close> and fed to \<^verbatim>\<open>Math.max\<close>; both read
  \<^verbatim>\<open>false\<close> as the number 0.
\<close>

definition toNumber :: "number option \<Rightarrow> number" where
  "toNumber v = (case v of None \<Rightarrow> Finite 0 | Some n \<Rightarrow> n)"

text \<open>
  \<^verbatim>\<open>getSessionDiff(loc, rem)\<close> mutates both sessions; the model returns the diff and
  the two sessions as they are afterwards.  The debug printing is left out.
\<close>

definition getSessionDiff :: "session \<Rightarrow> session \<Rightarrow> tabdiff \<times> session \<times> session" where
  "getSessionDiff loc rem =
     (let result = \<lparr>major = '''', minor = '''', err = False\<rparr> in
      if generation loc < Finite 0 then
        (result\<lparr>major := ''Local browser not initialized yet'', err := True\<rparr>, loc, rem)
      else if length (tabs loc) < 1 then
        (result\<lparr>major := ''No browser tabs found'', err := True\<rparr>,
         loc\<lparr>generation := Finite (- 1)\<rparr>, rem)
      else if generation rem < Finite 0 then
        (result\<lparr>major := ''No saved session found'', err := True\<rparr>, loc, rem)
      else if length (tabs rem) < 1 then
        (result\<lparr>major := ''No saved tabs found''\<rparr>, loc, rem\<lparr>generation := Finite (- 1)\<rparr>)
      else
        (let localOrder = ''Saved session has '';
             tabDiff = getTabsetDiff (tabs loc) (tabs rem);
             result = (if major tabDiff \<noteq> '''' then result\<lparr>major := localOrder @ major tabDiff\<rparr>
                       else if minor tabDiff \<noteq> '''' then result\<lparr>minor := localOrder @ minor tabDiff\<rparr>
                       else result)
         in
         if major result \<noteq> '''' \<or> minor result \<noteq> '''' then
           (result,
            (if equals (generation loc) (generation rem)
             then loc\<lparr>generation := increment (generation loc)\<rparr>
             else loc),
            rem)
         else
           (let loc1 = (if \<not> equals (generation loc) (generation rem)
                        then loc\<lparr>generation := generation rem\<rparr> else loc);
                later = mathMax (toNumber (updateTime loc1)) (toNumber (updateTime rem))
            in
            if \<not> equals (toNumber (updateTime loc1)) (toNumber (updateTime rem))
            then (result, loc1\<lparr>updateTime := Some later\<rparr>, rem\<lparr>updateTime := Some later\<rparr>)
            else (result, loc1, rem))))"

section \<open>Window affinity score (tabber.js)\<close>

text \<open>The two nested loops of \<^verbatim>\<open>getWindowScore_\<close>, with \<open>score\<close> as the running total.\<close>

fun scoreInner :: "tab \<Rightarrow> tab list \<Rightarrow> nat \<Rightarrow> nat" where
  "scoreInner t1 [] score = score"
| "scoreInner t1 (t2 # rest) score =
     scoreInner t1 rest
       (if url t1 = url t2
        then (let s5 = score + 5;
                  s3 = (if index t1 = index t2 then s5 + 3 else s5)
              in if active t1 = active t2 then s3 + 1 else s3)
        else score)"

fun scoreOuter :: "tab list \<Rightarrow> tab list \<Rightarrow> nat \<Rightarrow> nat" where
  "scoreOuter [] tabs2 score = score"
| "scoreOuter (t1 # rest) tabs2 score = scoreOuter rest tabs2 (scoreInner t1 tabs2 score)"

definition getWindowScore :: "tab list \<Rightarrow> tab list \<Rightarrow> nat" where
  "getWindowScore tabs1 tabs2 = scoreOuter tabs1 tabs2 0"

text \<open>
  The score as the specification words it: the points of one pair of tabs, summed over
  all ordered pairs.
\<close>

definition pairPoints :: "tab \<Rightarrow> tab \<Rightarrow> nat" where
  "pairPoints t1 t2 =
     (if url t1 = url t2
      then 5 + (if index t1 = index t2 then 3 else 0) + (if active t1 = active t2 then 1 else 0)
      else 0)"

definition specScore :: "tab list \<Rightarrow> tab list \<Rightarrow> nat" where
  "specScore tabs1 tabs2 = (\<Sum>t1\<leftarrow>tabs1. \<Sum>t2\<leftarrow>tabs2. pairPoints t1 t2)"

section \<open>Window affinity matcher (tabber.js)\<close>

text \<open>
  One entry of \<^verbatim>\<open>mapScores\<close>: a local window id, a remote window id (both are the
  string keys a \<^verbatim>\<open>for ... in\<close> loop yields) and the affinity score of the two windows.
\<close>

record edge =
  lwid :: string
  rwid :: string
  score :: nat

text \<open>The comparison function handed to \<^verbatim>\<open>sort\<close>: highest score first.\<close>

definition compareScores :: "edge \<Rightarrow> edge \<Rightarrow> int" where
  "compareScores a b = (if score a = score b then 0 else if score a < score b then 1 else - 1)"

text \<open>
  \<^verbatim>\<open>Array.prototype.sort\<close> with that comparison, as a stable insertion sort: an entry
  goes in front of the first entry that the comparison puts strictly after it.
\<close>

fun insertSorted :: "edge \<Rightarrow> edge list \<Rightarrow> edge list" where
  "insertSorted e [] = [e]"
| "insertSorted e (x # xs) =
     (if compareScores e x < 0 then e # x # xs else x # insertSorted e xs)"

definition sortMapScores :: "edge list \<Rightarrow> edge list" where
  "sortMapScores mapScores = foldl (\<lambda>sorted e. insertSorted e sorted) [] mapScores"

text \<open>
  The three arrays the acceptance loop fills.  \<^verbatim>\<open>locIdByRemId\<close> is an array used as a
  dictionary from remote window id to local window id.
\<close>

record matching =
  matchedRemIds :: "string list"
  matchedLocIds :: "string list"
  locIdByRemId :: "string \<rightharpoonup> string"

text \<open>The acceptance loop over \<^verbatim>\<open>sortedMapScores\<close>; \<^verbatim>\<open>indexOf(x) == -1\<close> is \<open>x \<notin> set\<close>.\<close>

fun acceptLoop :: "edge list \<Rightarrow> matching \<Rightarrow> matching" where
  "acceptLoop [] m = m"
| "acceptLoop (e # rest) m =
     acceptLoop rest
       (if rwid e \<notin> set (matchedRemIds m) \<and> lwid e \<notin> set (matchedLocIds m)
        then \<lparr>matchedRemIds = matchedRemIds m @ [rwid e],
              matchedLocIds = matchedLocIds m @ [lwid e],
              locIdByRemId = (locIdByRemId m)(rwid e \<mapsto> lwid e)\<rparr>
        else m)"

text \<open>
  Lines 782 to 811 of \<^verbatim>\<open>syncBrowserChromeMapWindows_\<close>: sort the scored pairs, then
  accept greedily.
\<close>

definition mapWindows :: "edge list \<Rightarrow> matching" where
  "mapWindows mapScores =
     acceptLoop (sortMapScores mapScores)
       \<lparr>matchedRemIds = [], matchedLocIds = [], locIdByRemId = Map.empty\<rparr>"

section \<open>Session codec (tabber\_session.js)\<close>

text \<open>The values that occur in a sync object and as the argument of \<^verbatim>\<open>update\<close>.\<close>

datatype jsvalue = JBoolean bool | JNumber number | JString string | JTab tab

text \<open>
  A sync object: a JavaScript object whose keys are not array indices, so that
  enumeration follows the order in which the keys were first set.  Setting an existing
  key keeps its place.
\<close>

type_synonym syncObj = "(string \<times> jsvalue) list"

fun setProp :: "syncObj \<Rightarrow> string \<Rightarrow> jsvalue \<Rightarrow> syncObj" where
  "setProp [] k v = [(k, v)]"
| "setProp ((k', v') # rest) k v =
     (if k' = k then (k, v) # rest else (k', v') # setProp rest k v)"

definition startsWith :: "string \<Rightarrow> string \<Rightarrow> bool" where
  "startsWith s p = (take (length p) s = p)"

text \<open>
  The own properties of a session other than \<^verbatim>\<open>tabs\<close>, in the order the constructor
  creates them.
\<close>

definition ownProperties :: "session \<Rightarrow> (string \<times> jsvalue) list" where
  "ownProperties s =
     [(''description'', JString (description s)),
      (''generation'', JNumber (generation s)),
      (''numtabs'', JNumber (numtabs s)),
      (''updateTime'', (case updateTime s of None \<Rightarrow> JBoolean False | Some n \<Rightarrow> JNumber n))]"

text \<open>The loop of \<^verbatim>\<open>toSync\<close> that adds one key per tab, \<open>t\<close> being the loop counter.\<close>

fun addTabs :: "tab list \<Rightarrow> nat \<Rightarrow> syncObj \<Rightarrow> syncObj" where
  "addTabs [] t obj = obj"
| "addTabs (x # rest) t obj = addTabs rest (t + 1) (setProp obj (''Tab_'' @ dec t) (JTab x))"

definition toSync :: "session \<Rightarrow> syncObj" where
  "toSync s =
     (let obj = foldl (\<lambda>obj (k, v). setProp obj k v) [] (ownProperties s);
          obj = setProp obj ''numtabs'' (JNumber (Finite (of_nat (length (tabs s)))))
      in addTabs (tabs s) 0 obj)"

text \<open>
  The assignment \<^verbatim>\<open>this[key] = value\<close> on a session.  The model is typed: the result is
  \<open>None\<close> when the assignment takes the object out of the data model (a value of
  another type than the property's, the \<^verbatim>\<open>tabs\<close> array itself, or a key that is not one
  of the five data properties).
\<close>

definition assignProp :: "session \<Rightarrow> string \<Rightarrow> jsvalue \<Rightarrow> session option" where
  "assignProp s key v =
     (if key = ''description'' then (case v of JString d \<Rightarrow> Some (s\<lparr>description := d\<rparr>) | _ \<Rightarrow> None)
      else if key = ''generation'' then (case v of JNumber g \<Rightarrow> Some (s\<lparr>generation := g\<rparr>) | _ \<Rightarrow> None)
      else if key = ''numtabs'' then (case v of JNumber n \<Rightarrow> Some (s\<lparr>numtabs := n\<rparr>) | _ \<Rightarrow> None)
      else if key = ''updateTime'' then
        (case v of JNumber n \<Rightarrow> Some (s\<lparr>updateTime := Some n\<rparr>)
         | JBoolean b \<Rightarrow> (if b then None else Some (s\<lparr>updateTime := None\<rparr>))
         | _ \<Rightarrow> None)
      else None)"

text \<open>The loop of \<^verbatim>\<open>fromSync\<close> over the keys of the sync object, in enumeration order.\<close>

fun fromSyncLoop :: "syncObj \<Rightarrow> session \<Rightarrow> session option" where
  "fromSyncLoop [] s = Some s"
| "fromSyncLoop ((property, v) # rest) s =
     (if startsWith property ''Tab_''
      then (case v of JTab x \<Rightarrow> fromSyncLoop rest (s\<lparr>tabs := tabs s @ [x]\<rparr>) | _ \<Rightarrow> None)
      else (case assignProp s property v of None \<Rightarrow> None | Some s' \<Rightarrow> fromSyncLoop rest s'))"

definition fromSync :: "syncObj \<Rightarrow> session \<Rightarrow> session option" where
  "fromSync obj s =
     (case fromSyncLoop obj s of None \<Rightarrow> None
      | Some s' \<Rightarrow> Some (s'\<lparr>numtabs := Finite (of_nat (length (tabs s')))\<rparr>))"

text \<open>
  \<^verbatim>\<open>isSessionValid\<close>.  The \<^verbatim>\<open>typeof\<close> tests that the typed model decides are: the
  timestamp is a number (not \<^verbatim>\<open>false\<close>) and every tab id is a number (not
  \<^verbatim>\<open>undefined\<close>).
\<close>

fun tabsValid :: "tab list \<Rightarrow> bool" where
  "tabsValid [] = True"
| "tabsValid (x # rest) =
     (if index x < 0 then False
      else (case tab_id x of None \<Rightarrow> False
            | Some i \<Rightarrow> (if i < 0 then False else tabsValid rest)))"

definition isSessionValid :: "session \<Rightarrow> bool" where
  "isSessionValid sess =
     (if updateTime sess = None then False
      else if length (tabs sess) < 1 then False
      else tabsValid (tabs sess))"

text \<open>
  \<^verbatim>\<open>String.prototype.split\<close> at a one-character separator.
\<close>

fun split :: "string \<Rightarrow> char \<Rightarrow> string list" where
  "split [] sep = [[]]"
| "split (c # cs) sep =
     (if c = sep then [] # split cs sep
      else (case split cs sep of [] \<Rightarrow> [[c]] | w # ws \<Rightarrow> (c # w) # ws))"

text \<open>
  The characters that \<^verbatim>\<open>parseInt\<close> skips at the start of its argument (white space and
  line terminators), each as its encoding: U+0009 to U+000D, U+0020, U+00A0, U+1680,
  U+2000 to U+200A, U+2028, U+2029, U+202F, U+205F, U+3000 and U+FEFF.  The last entry
  is the byte \<^verbatim>\<open>A0\<close> on its own, which starts no encoded character: a string given with
  one byte per character below U+0100 has it for U+00A0.
\<close>

definition whiteSpace :: "string list" where
  "whiteSpace =
     [[CHR 0x09], [CHR 0x0A], [CHR 0x0B], [CHR 0x0C], [CHR 0x0D], [CHR 0x20],
      [CHR 0xC2, CHR 0xA0],
      [CHR 0xE1, CHR 0x9A, CHR 0x80],
      [CHR 0xE2, CHR 0x80, CHR 0x80], [CHR 0xE2, CHR 0x80, CHR 0x81],
      [CHR 0xE2, CHR 0x80, CHR 0x82], [CHR 0xE2, CHR 0x80, CHR 0x83],
      [CHR 0xE2, CHR 0x80, CHR 0x84], [CHR 0xE2, CHR 0x80, CHR 0x85],
      [CHR 0xE2, CHR 0x80, CHR 0x86], [CHR 0xE2, CHR 0x80, CHR 0x87],
      [CHR 0xE2, CHR 0x80, CHR 0x88], [CHR 0xE2, CHR 0x80, CHR 0x89],
      [CHR 0xE2, CHR 0x80, CHR 0x8A],
      [CHR 0xE2, CHR 0x80, CHR 0xA8], [CHR 0xE2, CHR 0x80, CHR 0xA9],
      [CHR 0xE2, CHR 0x80, CHR 0xAF],
      [CHR 0xE2, CHR 0x81, CHR 0x9F],
      [CHR 0xE3, CHR 0x80, CHR 0x80],
      [CHR 0xEF, CHR 0xBB, CHR 0xBF],
      [CHR 0xA0]]"

function skipWhiteSpace :: "string \<Rightarrow> string" where
  "skipWhiteSpace s =
     (case find (startsWith s) whiteSpace of
        None \<Rightarrow> s
      | Some w \<Rightarrow> skipWhiteSpace (drop (length w) s))"
  by pat_completeness auto

termination
proof (relation "measure length")
  show "wf (measure length)" by simp
next
  fix s w :: string
  assume "find (startsWith s) whiteSpace = Some w"
  then have "w \<in> set whiteSpace" and "startsWith s w"
    by (auto simp add: find_Some_iff)
  then have "w \<noteq> []" and "take (length w) s = w"
    by (auto simp add: whiteSpace_def startsWith_def)
  then have "s \<noteq> []" by auto
  with \<open>w \<noteq> []\<close> show "(drop (length w) s, s) \<in> measure length" by simp
qed

declare skipWhiteSpace.simps [simp del]

definition isDigit :: "char \<Rightarrow> bool" where
  "isDigit c = (48 \<le> (of_char c :: nat) \<and> (of_char c :: nat) \<le> 57)"

fun digitsValue :: "string \<Rightarrow> nat \<Rightarrow> nat" where
  "digitsValue [] acc = acc"
| "digitsValue (c # cs) acc = digitsValue cs (10 * acc + (of_char c - 48))"

text \<open>
  \<^verbatim>\<open>parseInt(str, 10)\<close>: leading white space, an optional sign, then the longest run of
  decimal digits; without a digit the result is \<^verbatim>\<open>NaN\<close>, otherwise it is the double nearest
  to the integer written.  (Of an integer of more than 20 digits the language lets an
  implementation read the digits after the 20th as zeros; the model rounds the integer
  as it is written.)
\<close>

definition parseInt :: "string \<Rightarrow> number" where
  "parseInt str =
     (let s = skipWhiteSpace str;
          negative = (case s of [] \<Rightarrow> False | c # _ \<Rightarrow> c = CHR ''-'');
          s = (case s of [] \<Rightarrow> [] | c # cs \<Rightarrow> if c = CHR ''-'' \<or> c = CHR ''+'' then cs else c # cs);
          ds = takeWhile isDigit s
      in if ds = [] then NaN
         else toDouble (if negative then - of_nat (digitsValue ds 0) else of_nat (digitsValue ds 0)))"

text \<open>
  The names for which \<^verbatim>\<open>prop in sess\<close> holds on a fresh session: its own properties,
  the methods of its prototype, and the members of \<^verbatim>\<open>Object.prototype\<close>.
\<close>

definition sessionMembers :: "string list" where
  "sessionMembers =
     [''description'', ''generation'', ''tabs'', ''numtabs'', ''updateTime'',
      ''touch'', ''getTimeString'', ''toSync'', ''update'', ''updateProps'', ''fromSync'',
      ''toString'', ''printSession'', ''constructor'',
      ''hasOwnProperty'', ''isPrototypeOf'', ''propertyIsEnumerable'', ''toLocaleString'',
      ''valueOf'', ''__proto__'', ''__defineGetter__'', ''__defineSetter__'',
      ''__lookupGetter__'', ''__lookupSetter__'']"

definition isPropertyValid :: "string \<Rightarrow> bool" where
  "isPropertyValid prop =
     (if prop = [] then False
      else if startsWith prop ''Tab_'' then True
      else if prop = ''tabs'' then False
      else if prop \<in> set sessionMembers then True
      else False)"

text \<open>
  \<^verbatim>\<open>Array.prototype.slice(0, end)\<close>: the end is truncated to an integer, a negative end
  counts from the end of the array, \<^verbatim>\<open>NaN\<close> is read as 0.
\<close>

definition slice0 :: "'a list \<Rightarrow> number \<Rightarrow> 'a list" where
  "slice0 xs e =
     (case e of
        NaN \<Rightarrow> []
      | NegInfinity \<Rightarrow> []
      | Infinity \<Rightarrow> xs
      | Finite q \<Rightarrow>
          (let e = (if q < 0 then - \<lfloor>- q\<rfloor> else \<lfloor>q\<rfloor>)
           in if e < 0 then take (nat (int (length xs) + e)) xs else take (nat e) xs))"

text \<open>
  The element that \<^verbatim>\<open>tabs[t]\<close> names: \<open>t\<close> is an array index when it is an integer from
  0 to \<^verbatim>\<open>2^32 - 2\<close>.  For any other number the assignment \<^verbatim>\<open>tabs[t] = value\<close> creates a
  property of the array that is not an element.
\<close>

definition arrayIndex :: "number \<Rightarrow> nat option" where
  "arrayIndex t =
     (case t of
        Finite q \<Rightarrow> (if 0 \<le> q \<and> q < 4294967295 \<and> of_int \<lfloor>q\<rfloor> = q then Some (nat \<lfloor>q\<rfloor>) else None)
      | _ \<Rightarrow> None)"

text \<open>
  \<^verbatim>\<open>TabberSession.prototype.update\<close>, returning the boolean and the session afterwards.
  \<open>None\<close> means that the session left the typed data model: an ill-typed value was
  stored, or \<^verbatim>\<open>tabs[t] = value\<close> with \<open>t\<close> beyond the end of the array left a hole.
  When \<open>t\<close> is not an array index the tab sequence is unchanged.
\<close>

definition update :: "session \<Rightarrow> string \<Rightarrow> jsvalue \<Rightarrow> (bool \<times> session) option" where
  "update s key v =
     (if \<not> isPropertyValid key then Some (False, s)
      else if startsWith key ''Tab_'' then
        (let parts = split key CHR ''_'';
             t = (if 1 < length parts then parseInt (parts ! 1) else NaN)
         in if numtabs s \<le> t then Some (False, s)
            else (case arrayIndex t of
                    None \<Rightarrow> Some (True, s)
                  | Some i \<Rightarrow>
                      (case v of
                         JTab x \<Rightarrow>
                           if i < length (tabs s) then Some (True, s\<lparr>tabs := (tabs s)[i := x]\<rparr>)
                           else if i = length (tabs s) then Some (True, s\<lparr>tabs := tabs s @ [x]\<rparr>)
                           else None
                       | _ \<Rightarrow> None)))
      else
        (case assignProp s key v of
           None \<Rightarrow> None
         | Some s' \<Rightarrow>
             (case v of
                JNumber n \<Rightarrow>
                  if key = ''numtabs'' \<and> n < Finite (of_nat (length (tabs s')))
                  then Some (True, s'\<lparr>tabs := slice0 (tabs s') n, numtabs := n\<rparr>)
                  else Some (True, s')
              | _ \<Rightarrow> Some (True, s'))))"

section \<open>Reconciliation controller (tabber.js)\<close>

text \<open>
  The part of the \<^verbatim>\<open>TabberClass\<close> singleton and of its surroundings that
  \<^verbatim>\<open>setOptions\<close> and \<^verbatim>\<open>saveLocalToRemote_\<close> read or write: the fields of the singleton,
  the global \<^verbatim>\<open>debug\<close> flag, and the calls made to \<^verbatim>\<open>alert\<close>,
  \<^verbatim>\<open>chrome.storage.local.set\<close> (the mode persisted under \<^verbatim>\<open>options\<close>) and
  \<^verbatim>\<open>chrome.storage.sync.set\<close> (the record pushed), oldest first.  Console logging is left
  out.
\<close>

record tabber =
  options_mode :: string
  localSession :: session
  remoteSession :: session
  sync_in_progess :: bool
  save_in_progess :: bool
  status :: int
  statusMessage :: string
  debug :: bool
  alerts :: "string list"
  storageLocalSet :: "string list"
  storageSyncSet :: "syncObj list"

text \<open>The argument of \<^verbatim>\<open>setOptions\<close>; \<open>None\<close> is a property the object does not have.\<close>

record config =
  mode :: "string option"
  cfg_debug :: "bool option"

definition setOptions :: "config \<Rightarrow> tabber \<Rightarrow> tabber" where
  "setOptions cfg tbr =
     (let tbr = (case mode cfg of
                   None \<Rightarrow> tbr
                 | Some m \<Rightarrow>
                     if m = ''autosync'' \<or> m = ''autostart'' \<or> m = ''autosave'' \<or> m = ''manual''
                     then tbr\<lparr>options_mode := m, storageLocalSet := storageLocalSet tbr @ [m]\<rparr>
                     else tbr\<lparr>alerts := alerts tbr @ [''Unsupported Tabber operational mode: '' @ m]\<rparr>)
      in case cfg_debug cfg of
           None \<Rightarrow> tbr
         | Some d \<Rightarrow> if d then tbr\<lparr>debug := True\<rparr> else tbr\<lparr>debug := False\<rparr>)"

text \<open>
  \<^verbatim>\<open>saveLocalToRemote_\<close> up to and including the call of \<^verbatim>\<open>chrome.storage.sync.set\<close>;
  the callback of that call runs later.
\<close>

definition saveLocalToRemote :: "tabber \<Rightarrow> tabber" where
  "saveLocalToRemote tbr =
     (let loc = localSession tbr;
          rem = remoteSession tbr;
          loc = (if generation loc \<le> generation rem
                 then loc\<lparr>generation := increment (generation rem)\<rparr>
                 else loc);
          syncObj = toSync loc
      in tbr\<lparr>localSession := loc, storageSyncSet := storageSyncSet tbr @ [syncObj]\<rparr>)"

section \<open>Phase sequencer (sync\_phase\_handler.js)\<close>

text \<open>
  What happens during a phase, in the order it happens: \<^verbatim>\<open>doStep\<close> hands an operation
  to Chrome (\<open>Submitted\<close>), Chrome calls \<^verbatim>\<open>changeDone\<close> for a finished operation
  (\<open>Completed\<close>), \<^verbatim>\<open>finalize\<close> is called (\<open>Finalized\<close>), and the handler invokes the
  completion callback given to \<^verbatim>\<open>initHandler\<close> (\<open>Fired\<close>).
\<close>

datatype happening = Submitted | Completed | Finalized | Fired

text \<open>
  The module's variables.  The two callbacks are functions of the caller: of
  \<^verbatim>\<open>stepCallback\<close> the model keeps whether one is registered, and the invocations of
  \<^verbatim>\<open>completionCallback\<close> are recorded in \<open>history\<close>, which is not a variable of the
  module but the record of the phase so far, oldest first.  What the completion callback
  does when it is invoked (in the extension it starts the next phase) is not part of the
  phase.
\<close>

record handler =
  change_count :: int
  pending_changes :: bool
  stepCallback :: bool
  history :: "happening list"

text \<open>
  The calls that reach the handler.  A step callback is code of the caller and may call
  the handler again: \<open>ChangeDone body\<close> is a call of \<^verbatim>\<open>changeDone\<close> by Chrome, where
  \<open>body\<close> lists the calls that the step callback makes if this call invokes one;
  \<open>Finalize body\<close> is a call of \<^verbatim>\<open>finalize\<close>, with \<open>body\<close> for the step callback that
  its own \<^verbatim>\<open>changeDone(null)\<close> may invoke.  An operation that finishes at once is a
  \<open>DoStep\<close> followed by its \<open>ChangeDone\<close>.
\<close>

datatype call = DoStep | SetDoStepCallback | ChangeDone "call list" | Finalize "call list"

definition initHandler :: "handler \<Rightarrow> handler" where
  "initHandler h = h\<lparr>change_count := 0, pending_changes := True, history := []\<rparr>"

definition setDoStepCallback :: "handler \<Rightarrow> handler" where
  "setDoStepCallback h = h\<lparr>stepCallback := True\<rparr>"

definition doStep :: "handler \<Rightarrow> handler" where
  "doStep h = h\<lparr>change_count := change_count h + 1, history := history h @ [Submitted]\<rparr>"

text \<open>The part of \<^verbatim>\<open>changeDone\<close> after the step callback: count down, then test.\<close>

definition changeDoneEnd :: "handler \<Rightarrow> handler" where
  "changeDoneEnd h =
     (let h = (if change_count h > 0 then h\<lparr>change_count := change_count h - 1\<rparr> else h)
      in if change_count h = 0 \<and> \<not> pending_changes h
         then h\<lparr>history := history h @ [Fired]\<rparr>
         else h)"

text \<open>
  \<open>run\<close> performs a sequence of calls, \<open>perform\<close> one call.  \<open>changeDone body\<close> is the
  function \<^verbatim>\<open>changeDone\<close>: a registered step callback is cleared and then invoked
  (\<open>run body\<close>), before the count goes down.
\<close>

fun run :: "call list \<Rightarrow> handler \<Rightarrow> handler"
  and perform :: "call \<Rightarrow> handler \<Rightarrow> handler"
  and changeDone :: "call list \<Rightarrow> handler \<Rightarrow> handler" where
  "run [] h = h"
| "run (c # cs) h = run cs (perform c h)"
| "perform DoStep h = doStep h"
| "perform SetDoStepCallback h = setDoStepCallback h"
| "perform (ChangeDone body) h = changeDone body (h\<lparr>history := history h @ [Completed]\<rparr>)"
| "perform (Finalize body) h =
     (let h = h\<lparr>pending_changes := False, history := history h @ [Finalized]\<rparr>
      in if change_count h = 0 then changeDone body h else h)"
| "changeDone body h =
     changeDoneEnd (if stepCallback h then run body (h\<lparr>stepCallback := False\<rparr>) else h)"

text \<open>
  The use of the handler that the specification describes, read off a history.  The
  progress of a phase is the number of operations submitted and not yet completed, and
  whether \<^verbatim>\<open>finalize\<close> was called.  \<open>follow\<close> steps through a history and gives up
  (\<open>None\<close>) when a step is submitted after \<^verbatim>\<open>finalize\<close>, when \<^verbatim>\<open>finalize\<close> is called
  twice, or when a completion arrives that no submitted operation is waiting for.
\<close>

type_synonym progress = "nat \<times> bool"

fun follow :: "progress \<Rightarrow> happening list \<Rightarrow> progress option" where
  "follow p [] = Some p"
| "follow (out, fin) (Submitted # l) = (if fin then None else follow (Suc out, fin) l)"
| "follow (out, fin) (Completed # l) = (if out = 0 then None else follow (out - 1, fin) l)"
| "follow (out, fin) (Finalized # l) = (if fin then None else follow (out, True) l)"
| "follow (out, fin) (Fired # l) = follow (out, fin) l"

section \<open>Example data\<close>

text \<open>Three tabs of one window, and sessions built from them.\<close>

definition tabA :: tab where
  "tabA = \<lparr>url = ''a'', index = 0, tab_id = Some 1, windowId = Some 10,
            active = Some True, title = Some ''A''\<rparr>"

definition tabB :: tab where
  "tabB = \<lparr>url = ''b'', index = 1, tab_id = Some 2, windowId = Some 10,
            active = Some False, title = Some ''B''\<rparr>"

definition tabC :: tab where
  "tabC = \<lparr>url = ''c'', index = 2, tab_id = Some 3, windowId = Some 10,
            active = Some False, title = Some ''C''\<rparr>"

definition sessionABC :: session where
  "sessionABC = \<lparr>description = ''default'', generation = Finite 1, tabs = [tabA, tabB, tabC],
                  numtabs = Finite 3, updateTime = Some (Finite 1000)\<rparr>"

definition sessionAB :: session where
  "sessionAB = \<lparr>description = ''default'', generation = Finite 1, tabs = [tabA, tabB],
                 numtabs = Finite 2, updateTime = Some (Finite 2000)\<rparr>"

definition sessionNoTabs :: session where
  "sessionNoTabs = \<lparr>description = ''default'', generation = Finite 1, tabs = [],
                     numtabs = Finite 0, updateTime = Some (Finite 1000)\<rparr>"

text \<open>
  A local session as \<^verbatim>\<open>syncLocalToBrowser_\<close> leaves it: the tabs were replaced, the
  \<^verbatim>\<open>numtabs\<close> property still has the value the constructor gave it.
\<close>

definition staleSession :: session where
  "staleSession = \<lparr>description = ''default'', generation = Finite 1, tabs = [tabA, tabB, tabC],
                    numtabs = Finite 0, updateTime = Some (Finite 1000)\<rparr>"

text \<open>Two local windows against two remote windows, one pair scoring highest.\<close>

definition exampleScores :: "edge list" where
  "exampleScores =
     [\<lparr>lwid = ''10'', rwid = ''7'', score = 5\<rparr>,
      \<lparr>lwid = ''10'', rwid = ''8'', score = 14\<rparr>,
      \<lparr>lwid = ''11'', rwid = ''7'', score = 9\<rparr>,
      \<lparr>lwid = ''11'', rwid = ''8'', score = 0\<rparr>]"

text \<open>A controller in its default mode, with nothing persisted or pushed yet.\<close>

definition exampleTabber :: tabber where
  "exampleTabber =
     \<lparr>options_mode = ''autosave'', localSession = sessionABC, remoteSession = sessionAB,
      sync_in_progess = False, save_in_progess = False, status = 0, statusMessage = '''',
      debug = False, alerts = [], storageLocalSet = [], storageSyncSet = []\<rparr>"

text \<open>
  A handler as an earlier phase left it, and a phase of three steps: the first completion
  invokes a step callback that submits the third step and finalizes.
\<close>

definition staleHandler :: handler where
  "staleHandler =
     \<lparr>change_count = 7, pending_changes = False, stepCallback = False, history = [Fired]\<rparr>"

definition examplePhase :: "call list" where
  "examplePhase =
     [DoStep, SetDoStepCallback, DoStep, ChangeDone [DoStep, Finalize []],
      ChangeDone [], ChangeDone []]"

section \<open>Notions used in the proofs\<close>

text \<open>
  Rounding a natural number to 53 significant binary digits, with quotient and
  remainder in place of the division of rationals, and the number of opposite sign.
\<close>

definition roundNat :: "nat \<Rightarrow> nat" where
  "roundNat n =
     (let u = 2 ^ (bitLength n - 53); d = n div u; r = n mod u
      in if 2 * r < u then d * u
         else if u < 2 * r then (d + 1) * u
         else if even d then d * u else (d + 1) * u)"

definition negate :: "number \<Rightarrow> number" where
  "negate x =
     (case x of NaN \<Rightarrow> NaN | NegInfinity \<Rightarrow> Infinity | Finite q \<Rightarrow> Finite (- q)
      | Infinity \<Rightarrow> NegInfinity)"

text \<open>Highest score first.\<close>

abbreviation byScore :: "edge \<Rightarrow> edge \<Rightarrow> bool" where
  "byScore a b \<equiv> score b \<le> score a"

text \<open>
  What the acceptance loop maintains: the two id arrays grow together, neither holds an
  id twice, and the dictionary is the pairing of the two arrays.
\<close>

definition consistent :: "matching \<Rightarrow> bool" where
  "consistent m =
     (length (matchedRemIds m) = length (matchedLocIds m) \<and>
      distinct (matchedRemIds m) \<and> distinct (matchedLocIds m) \<and>
      locIdByRemId m = map_of (zip (matchedRemIds m) (matchedLocIds m)))"

text \<open>The entries that the tab loop of \<open>toSync\<close> appends, \<open>t\<close> being the first number.\<close>

fun tabEntries :: "nat \<Rightarrow> tab list \<Rightarrow> syncObj" where
  "tabEntries t [] = []"
| "tabEntries t (x # rest) = (''Tab_'' @ dec t, JTab x) # tabEntries (Suc t) rest"

text \<open>
  The invariant of a phase, \<open>d\<close> being the number of calls of \<^verbatim>\<open>changeDone\<close> by
  Chrome that are under way: the history follows the protocol, the counter is the number
  of operations still out plus \<open>d\<close>, the flag is set until \<^verbatim>\<open>finalize\<close>, and the
  completion callback has fired at most once, and then as the last thing, outside every
  call, with nothing out and after \<^verbatim>\<open>finalize\<close>.
\<close>

definition tracks :: "nat \<Rightarrow> handler \<Rightarrow> bool" where
  "tracks d h =
     (\<exists>out fin.
        follow (0, False) (history h) = Some (out, fin) \<and>
        change_count h = int out + int d \<and>
        pending_changes h = (\<not> fin) \<and>
        count_list (history h) Fired \<le> 1 \<and>
        (Fired \<in> set (history h) \<longrightarrow> fin \<and> out = 0 \<and> d = 0 \<and> last (history h) = Fired))"

text \<open>Between calls, a handler that has nothing left to wait for has fired.\<close>

definition settled :: "handler \<Rightarrow> bool" where
  "settled h = (change_count h = 0 \<and> \<not> pending_changes h \<longrightarrow> Fired \<in> set (history h))"

text \<open>
  What a call records when it is made, calls whose step callback (if any) does not call
  the handler again, and a history without the invocations of the completion callback.
\<close>

fun recorded :: "call \<Rightarrow> happening list" where
  "recorded DoStep = [Submitted]"
| "recorded SetDoStepCallback = []"
| "recorded (ChangeDone body) = [Completed]"
| "recorded (Finalize body) = [Finalized]"

fun plain :: "call \<Rightarrow> bool" where
  "plain (ChangeDone body) = (body = [])"
| "plain (Finalize body) = (body = [])"
| "plain c = True"

abbreviation calls :: "happening list \<Rightarrow> happening list" where
  "calls l \<equiv> filter (\<lambda>x. x \<noteq> Fired) l"

section \<open>Numbers: rounding to a double\<close>

text \<open>
  The number of binary digits: \<open>n\<close> lies from \<^verbatim>\<open>2^(b-1)\<close> to \<^verbatim>\<open>2^b - 1\<close> exactly when
  it has \<open>b\<close> digits, and a shift by \<open>k\<close> places adds \<open>k\<close> digits.
\<close>

lemma bitLength_0 [simp]: "bitLength 0 = 0"
  by (simp add: bitLength.simps)

lemma bitLength_pos: "0 < n \<Longrightarrow> bitLength n = Suc (bitLength (n div 2))"
  by (simp add: bitLength.simps [of n])

lemma bitLength_upper: "n < 2 ^ bitLength n"
proof (induction n rule: bitLength.induct)
  case (1 n)
  show ?case
  proof (cases "n = 0")
    case True
    then show ?thesis by simp
  next
    case False
    with 1 have "n div 2 < 2 ^ bitLength (n div 2)" by simp
    then have "n < 2 * 2 ^ bitLength (n div 2)" by linarith
    with False show ?thesis by (simp add: bitLength_pos)
  qed
qed

lemma bitLength_lower: "0 < n \<Longrightarrow> 2 ^ (bitLength n - 1) \<le> n"
proof (induction n rule: bitLength.induct)
  case (1 n)
  show ?case
  proof (cases "n div 2 = 0")
    case True
    with 1(2) show ?thesis by (simp add: bitLength_pos)
  next
    case False
    with 1 have ih: "2 ^ (bitLength (n div 2) - 1) \<le> n div 2" by simp
    from False have "bitLength (n div 2) = Suc (bitLength (n div 2 div 2))"
      by (simp add: bitLength_pos)
    then have "(2::nat) ^ bitLength (n div 2) = 2 * 2 ^ (bitLength (n div 2) - 1)"
      by simp
    moreover have "bitLength n - 1 = bitLength (n div 2)"
      using 1(2) by (simp add: bitLength_pos)
    ultimately have "(2::nat) ^ (bitLength n - 1) = 2 * 2 ^ (bitLength (n div 2) - 1)"
      by simp
    also have "\<dots> \<le> 2 * (n div 2)" using ih by simp
    also have "\<dots> \<le> n" by simp
    finally show ?thesis .
  qed
qed

lemma bitLength_eq:
  assumes "2 ^ k \<le> n" and "n < 2 ^ Suc k"
  shows "bitLength n = Suc k"
proof -
  from assms(1) have pos: "0 < n"
    by (metis less_le_trans zero_less_numeral zero_less_power)
  have "(2::nat) ^ k < 2 ^ bitLength n"
    using assms(1) bitLength_upper [of n] by (rule le_less_trans)
  then have "k < bitLength n" by (simp add: power_strict_increasing_iff)
  moreover have "(2::nat) ^ (bitLength n - 1) < 2 ^ Suc k"
    using bitLength_lower [OF pos] assms(2) by (rule le_less_trans)
  then have "bitLength n - 1 < Suc k" by (simp only: power_strict_increasing_iff one_less_numeral_iff semiring_norm)
  ultimately show ?thesis by linarith
qed

lemma bitLength_shift: "0 < n \<Longrightarrow> bitLength (n * 2 ^ k) = bitLength n + k"
proof -
  assume pos: "0 < n"
  then obtain b where b: "bitLength n = Suc b"
    by (auto simp add: bitLength_pos)
  from bitLength_lower [OF pos] b have "2 ^ b \<le> n" by simp
  then have low: "2 ^ (b + k) \<le> n * 2 ^ k" by (simp add: power_add)
  from bitLength_upper [of n] b have "n < 2 ^ Suc b" by simp
  then have "n * 2 ^ k < 2 ^ Suc b * 2 ^ k" by simp
  then have up: "n * 2 ^ k < 2 ^ Suc (b + k)" by (simp add: power_add)
  from bitLength_eq [OF low up] b show ?thesis by simp
qed

lemma bitLength_le: "n < 2 ^ k \<Longrightarrow> bitLength n \<le> k"
proof (induction k arbitrary: n)
  case 0
  then show ?case by simp
next
  case (Suc k)
  show ?case
  proof (cases "n = 0")
    case True
    then show ?thesis by simp
  next
    case False
    from Suc.prems have "n div 2 < 2 ^ k" by simp
    then have "bitLength (n div 2) \<le> k" by (rule Suc.IH)
    with False show ?thesis by (simp add: bitLength_pos)
  qed
qed

text \<open>
  Rounding on the natural numbers: a number is left as it is when its digits below the
  53rd are zeros, in particular up to \<^verbatim>\<open>2^53\<close>; rounding commutes with a shift; and no
  number is rounded to below a smaller number that rounding leaves as it is.
\<close>

lemma roundSignificand_of_nat: "roundSignificand (of_nat n) = roundNat n"
proof -
  define u :: nat where "u = 2 ^ (bitLength n - 53)"
  have u: "0 < u" by (simp add: u_def)
  have d: "nat \<lfloor>(of_nat n :: rat) / of_nat u\<rfloor> = n div u"
    by (simp add: floor_divide_of_nat_eq)
  have "(of_nat n :: rat) = of_nat (n div u * u + n mod u)" by simp
  also have "\<dots> = of_nat (n div u) * of_nat u + of_nat (n mod u)"
    by (simp only: of_nat_add of_nat_mult)
  finally have "(of_nat n :: rat) / of_nat u = of_nat (n div u) + of_nat (n mod u) / of_nat u"
    using u by (simp add: field_simps)
  then have r: "(of_nat n :: rat) / of_nat u - of_nat (n div u) = of_nat (n mod u) / of_nat u"
    by simp
  have lt: "(of_nat (n mod u) / of_nat u < (1 / 2 :: rat)) = (2 * (n mod u) < u)"
  proof -
    have "(of_nat (n mod u) / of_nat u < (1 / 2 :: rat)) = ((of_nat (2 * (n mod u)) :: rat) < of_nat u)"
      using u by (simp add: field_simps)
    then show ?thesis by (simp only: of_nat_less_iff)
  qed
  have gt: "((1 / 2 :: rat) < of_nat (n mod u) / of_nat u) = (u < 2 * (n mod u))"
  proof -
    have "((1 / 2 :: rat) < of_nat (n mod u) / of_nat u) = ((of_nat u :: rat) < of_nat (2 * (n mod u)))"
      using u by (simp add: field_simps)
    then show ?thesis by (simp only: of_nat_less_iff)
  qed
  show ?thesis
    unfolding roundSignificand_def roundNat_def Let_def floor_of_nat nat_int u_def [symmetric] d r lt gt
    by (rule refl)
qed

lemma roundNat_cases:
  "roundNat n = n div 2 ^ (bitLength n - 53) * 2 ^ (bitLength n - 53) \<or>
   roundNat n = (n div 2 ^ (bitLength n - 53) + 1) * 2 ^ (bitLength n - 53)"
  unfolding roundNat_def Let_def by simp

lemma roundNat_exact: "2 ^ (bitLength n - 53) dvd n \<Longrightarrow> roundNat n = n"
  unfolding roundNat_def Let_def by (simp add: mod_eq_0_iff_dvd)

lemma roundNat_small: "n \<le> 2 ^ 53 \<Longrightarrow> roundNat n = n"
proof (cases "n = 2 ^ 53")
  case True
  have "bitLength n = Suc 53"
    by (rule bitLength_eq) (simp_all add: True)
  then have "(2::nat) ^ (bitLength n - 53) = 2" by simp
  moreover have "(2::nat) dvd n" by (simp add: True)
  ultimately show ?thesis by (simp add: roundNat_exact)
next
  case False
  assume "n \<le> 2 ^ 53"
  with False have "n < 2 ^ 53" by simp
  then have "bitLength n \<le> 53" by (rule bitLength_le)
  then show ?thesis by (simp add: roundNat_exact)
qed

lemma roundNat_shift: "roundNat (n * 2 ^ k) = roundNat n * 2 ^ k"
proof (cases "n = 0")
  case True
  then show ?thesis by (simp add: roundNat_exact)
next
  case False
  then have len: "bitLength (n * 2 ^ k) = bitLength n + k"
    by (simp add: bitLength_shift)
  show ?thesis
  proof (cases "bitLength n \<le> 53")
    case True
    then have "roundNat n = n" by (simp add: roundNat_exact)
    moreover from True have "bitLength (n * 2 ^ k) - 53 \<le> k"
      unfolding len by simp
    then have "(2::nat) ^ (bitLength (n * 2 ^ k) - 53) dvd 2 ^ k"
      by (rule le_imp_power_dvd)
    then have "2 ^ (bitLength (n * 2 ^ k) - 53) dvd n * 2 ^ k"
      by (rule dvd_mult)
    then have "roundNat (n * 2 ^ k) = n * 2 ^ k" by (rule roundNat_exact)
    ultimately show ?thesis by simp
  next
    case False
    define u :: nat where "u = 2 ^ (bitLength n - 53)"
    define c :: nat where "c = 2 ^ k"
    have c: "0 < c" by (simp add: c_def)
    from False have "bitLength n + k - 53 = (bitLength n - 53) + k" by simp
    then have u': "2 ^ (bitLength (n * c) - 53) = u * c"
      unfolding c_def len u_def by (simp add: power_add)
    have d: "(n * c) div (u * c) = n div u"
      using c by simp
    have r: "(n * c) mod (u * c) = (n mod u) * c"
      by (rule mod_mult_mult2)
    have lt: "(2 * (n mod u * c) < u * c) = (2 * (n mod u) < u)"
      using c by (simp add: mult.assoc [symmetric])
    have gt: "(u * c < 2 * (n mod u * c)) = (u < 2 * (n mod u))"
      using c by (simp add: mult.assoc [symmetric])
    have "roundNat (n * c) = roundNat n * c"
      unfolding roundNat_def Let_def u' d r lt gt u_def [symmetric]
      by (simp add: algebra_simps)
    then show ?thesis by (simp only: c_def)
  qed
qed

lemma roundNat_lower:
  assumes fixed: "roundNat m = m" and le: "m \<le> n"
  shows "m \<le> roundNat n"
proof (rule ccontr)
  assume less: "\<not> m \<le> roundNat n"
  define b where "b = bitLength n"
  define u :: nat where "u = 2 ^ (b - 53)"
  define d where "d = n div u"
  have u: "0 < u" by (simp add: u_def)
  from roundNat_cases [of n] have "d * u \<le> roundNat n"
    unfolding b_def [symmetric] u_def [symmetric] d_def [symmetric] by auto
  with less have above: "d * u < m" by simp
  have "n < (d + 1) * u"
    unfolding d_def using u by (metis Suc_eq_plus1 dividend_less_div_times mult.commute add.commute mult_Suc)
  with le have below: "m < (d + 1) * u" by simp
  have long: "53 < b"
  proof (rule ccontr)
    assume "\<not> 53 < b"
    then have "u = 1" by (simp add: u_def)
    with above below show False by simp
  qed
  from above have "0 < m" by simp
  with le have "0 < n" by simp
  then have low: "2 ^ (b - 1) \<le> n"
    unfolding b_def by (rule bitLength_lower)
  from long have split: "b - 1 = 52 + (b - 53)" by simp
  have pow: "(2::nat) ^ (b - 1) = 2 ^ 52 * u"
    unfolding u_def split by (rule power_add)
  with low have "2 ^ 52 * u \<le> n" by simp
  with u have "2 ^ 52 \<le> d"
    unfolding d_def by (simp only: less_eq_div_iff_mult_less_eq)
  then have "2 ^ 52 * u \<le> d * u" by (rule mult_le_mono1)
  then have "2 ^ (b - 1) \<le> d * u" by (simp only: pow)
  with above have m_low: "2 ^ (b - 1) \<le> m" by linarith
  have "m < 2 ^ b"
    using le bitLength_upper [of n] unfolding b_def by (rule le_less_trans)
  moreover from long have "b = Suc (b - 1)" by simp
  ultimately have "m < 2 ^ Suc (b - 1)" by simp
  with m_low have "bitLength m = Suc (b - 1)" by (rule bitLength_eq)
  with long have "bitLength m = b" by simp
  with roundNat_cases [of m] fixed have "m = m div u * u \<or> m = (m div u + 1) * u"
    unfolding u_def by simp
  then obtain j where j: "m = j * u" by blast
  from above have "d * u < j * u" by (simp only: j)
  then have "d < j" by (simp only: mult_less_cancel2)
  moreover from below have "j * u < (d + 1) * u" by (simp only: j)
  then have "j < d + 1" by (simp only: mult_less_cancel2)
  ultimately show False by simp
qed

text \<open>
  What \<open>toDouble\<close> gives for a natural number, for the opposite number and for a whole
  number up to \<^verbatim>\<open>2^53\<close> in magnitude, and that it does not take a natural number to
  below a smaller number.
\<close>

lemma roundSignificand_0 [simp]: "roundSignificand 0 = 0"
  using roundSignificand_of_nat [of 0] by (simp add: roundNat_exact)

lemma toDouble_of_nat:
  "toDouble (of_nat n) =
     (if 2 ^ 1024 \<le> roundNat n then Infinity else Finite (of_nat (roundNat n)))"
proof -
  define P :: nat where "P = 2 ^ 1074"
  have P: "0 < P" by (simp add: P_def)
  have x: "\<bar>of_nat n :: rat\<bar> * 2 ^ 1074 = of_nat (n * P)"
    by (simp add: P_def)
  have m: "roundSignificand (of_nat (n * P)) = roundNat n * P"
    unfolding roundSignificand_of_nat P_def by (rule roundNat_shift)
  have "(2::nat) ^ 2098 = 2 ^ 1024 * P"
    unfolding P_def by (simp only: power_add [symmetric]) simp
  then have ov: "((2::nat) ^ 2098 \<le> roundNat n * P) = (2 ^ 1024 \<le> roundNat n)"
    using P by (simp only: mult_le_cancel2) simp
  have rat: "(of_nat (roundNat n * P) :: rat) / 2 ^ 1074 = of_nat (roundNat n)"
    by (simp add: P_def)
  have val: "sgn (of_nat n :: rat) * of_nat (roundNat n * P) / 2 ^ 1074 = of_nat (roundNat n)"
  proof (cases "n = 0")
    case True
    then show ?thesis by (simp add: roundNat_exact)
  next
    case False
    then have "sgn (of_nat n :: rat) = 1" by simp
    then show ?thesis using rat by simp
  qed
  have neg: "\<not> (of_nat n :: rat) < 0" by simp
  show ?thesis
    unfolding toDouble_def Let_def x m ov val using neg by (simp only: if_False)
qed

lemma toDouble_minus: "toDouble (- q) = negate (toDouble q)"
proof (cases "q = 0")
  case True
  then show ?thesis by (simp add: toDouble_def negate_def)
next
  case False
  then have "(- q < 0) = (\<not> q < 0)" by auto
  then show ?thesis
    unfolding toDouble_def Let_def negate_def abs_minus_cancel sgn_minus
    by (simp only: number.case if_distrib [of "case_number NaN Infinity (\<lambda>q. Finite (- q)) NegInfinity"]
        minus_divide_left [symmetric] mult_minus_left split: if_splits) simp
qed

lemma toDouble_of_int: "\<bar>z\<bar> \<le> 2 ^ 53 \<Longrightarrow> toDouble (of_int z) = Finite (of_int z)"
proof -
  assume small: "\<bar>z\<bar> \<le> 2 ^ 53"
  define n where "n = nat \<bar>z\<bar>"
  from small have "n \<le> 2 ^ 53" by (simp add: n_def nat_le_iff)
  then have exact: "roundNat n = n" by (rule roundNat_small)
  have "n < 2 ^ 1024"
    using \<open>n \<le> 2 ^ 53\<close> by (rule le_less_trans) simp
  with exact have pos: "toDouble (of_nat n) = Finite (of_nat n)"
    by (simp only: toDouble_of_nat) simp
  show ?thesis
  proof (cases "0 \<le> z")
    case True
    then have "(of_int z :: rat) = of_nat n" by (simp add: n_def)
    with pos show ?thesis by simp
  next
    case False
    then have "(of_int z :: rat) = - of_nat n" by (simp add: n_def)
    with pos show ?thesis by (simp only: toDouble_minus) (simp add: negate_def)
  qed
qed

lemma isNumber_lower:
  assumes num: "isNumber x" and le: "x \<le> Finite (of_nat n)"
  shows "x \<le> toDouble (of_nat n)"
proof (cases x)
  case NaN
  with le show ?thesis by (simp add: less_eq_number_def)
next
  case NegInfinity
  then show ?thesis by (simp add: less_eq_number_def toDouble_of_nat)
next
  case Infinity
  with le show ?thesis by (simp add: less_eq_number_def)
next
  case (Finite q)
  with le have q: "q \<le> of_nat n" by (simp add: less_eq_number_def)
  have "q \<le> of_nat (roundNat n)"
  proof (cases "q \<le> 0")
    case True
    then show ?thesis by (rule order_trans) simp
  next
    case False
    then have pos: "0 < q" by simp
    define m where "m = roundSignificand (q * 2 ^ 1074)"
    from num Finite pos have "q * 2 ^ 1074 = of_nat m"
      by (simp add: isNumber_def toDouble_def Let_def m_def split: if_splits)
    then have m: "q = of_nat m / 2 ^ 1074" by simp
    from \<open>q * 2 ^ 1074 = of_nat m\<close> have "roundSignificand (of_nat m) = m"
      by (simp add: m_def)
    then have fixed: "roundNat m = m" by (simp only: roundSignificand_of_nat)
    from q m have "(of_nat m :: rat) \<le> of_nat n * 2 ^ 1074"
      by (simp add: field_simps)
    then have "(of_nat m :: rat) \<le> of_nat (n * 2 ^ 1074)" by simp
    then have "m \<le> n * 2 ^ 1074" by (simp only: of_nat_le_iff)
    with fixed have "m \<le> roundNat (n * 2 ^ 1074)" by (rule roundNat_lower)
    then have "m \<le> roundNat n * 2 ^ 1074" by (simp only: roundNat_shift)
    then have "(of_nat m :: rat) \<le> of_nat (roundNat n * 2 ^ 1074)" by (simp only: of_nat_le_iff)
    then have "(of_nat m :: rat) \<le> of_nat (roundNat n) * 2 ^ 1074" by simp
    with m show ?thesis by (simp add: field_simps)
  qed
  with Finite show ?thesis
    by (simp add: toDouble_of_nat less_eq_number_def)
qed

text \<open>
  The increment of a whole number from \<^verbatim>\<open>-2^53\<close> to \<^verbatim>\<open>2^53 - 1\<close> is exact; that of
  \<^verbatim>\<open>2^53\<close> is not, since \<^verbatim>\<open>2^53 + 1\<close> lies halfway between the doubles \<^verbatim>\<open>2^53\<close> and
  \<^verbatim>\<open>2^53 + 2\<close> and is rounded to the even one.
\<close>

lemma increment_of_int:
  "- (2 ^ 53) \<le> g \<Longrightarrow> g < 2 ^ 53 \<Longrightarrow> increment (Finite (of_int g)) = Finite (of_int (g + 1))"
proof -
  assume "- (2 ^ 53) \<le> g" and "g < 2 ^ 53"
  then have "\<bar>g + 1\<bar> \<le> 2 ^ 53" by simp
  then have "toDouble (of_int (g + 1)) = Finite (of_int (g + 1))"
    by (rule toDouble_of_int)
  then show ?thesis by (simp add: increment_def)
qed

lemma bitLength_2_53_1: "bitLength 9007199254740993 = 54"
  by (simp add: bitLength.simps)

lemma roundNat_2_53_1: "roundNat 9007199254740993 = 9007199254740992"
  by (simp add: roundNat_def bitLength_2_53_1)


section \<open>Diff engine: tab counts\<close>

text \<open>
  C3, as the code has it.  When the two sequences differ in length, \<open>getTabsetDiff\<close>
  returns a major difference and nothing else (\<open>minor\<close> empty, \<open>err\<close> false).  Its text is
  the absolute difference of the two lengths in decimal, followed by \<open>fewer tabs\<close> when
  the second sequence is the shorter one and by \<open>more tabs\<close> when the second sequence is
  the longer one: the direction describes the second sequence, as the comment of the
  function says.
\<close>

theorem getTabsetDiff_length:
  "length tabs1 \<noteq> length tabs2 \<Longrightarrow>
   getTabsetDiff tabs1 tabs2 =
     \<lparr>major = dec (nat \<bar>int (length tabs1) - int (length tabs2)\<bar>) @
              (if length tabs2 < length tabs1 then '' fewer tabs'' else '' more tabs''),
      minor = '''', err = False\<rparr>"
  by (auto simp add: getTabsetDiff_def Let_def nat_diff_distrib')

text \<open>The scenario of C3: local \<open>[A, B, C]\<close> against remote \<open>[A, B]\<close> cites the count 1.\<close>

theorem getTabsetDiff_length_witness:
  "length [tabA, tabB, tabC] \<noteq> length [tabA, tabB] \<and>
   getTabsetDiff [tabA, tabB, tabC] [tabA, tabB] =
     \<lparr>major = ''1 fewer tabs'', minor = '''', err = False\<rparr>"
  using getTabsetDiff_length [of "[tabA, tabB, tabC]" "[tabA, tabB]"]
  by (simp add: dec.simps)

text \<open>
  C3 as stated gives the direction from the first sequence's side.  In the scenario the
  first sequence is the longer one, it has one tab more than the second, and the code
  reports \<open>1 fewer tabs\<close>.
\<close>

theorem getTabsetDiff_direction_counterexample:
  "length [tabA, tabB] < length [tabA, tabB, tabC] \<and>
   major (getTabsetDiff [tabA, tabB, tabC] [tabA, tabB]) = ''1 fewer tabs'' \<and>
   major (getTabsetDiff [tabA, tabB, tabC] [tabA, tabB]) \<noteq> ''1 more tabs''"
  by (simp add: getTabsetDiff_def dec.simps)

section \<open>Diff engine: sessions\<close>

text \<open>
  C4, as the code has it.  When the local generation is negative, \<open>getSessionDiff\<close>
  reports \<open>Local browser not initialized yet\<close> with \<open>err\<close> set and changes neither
  session (the local generation stays what it was).  When the local generation is not
  negative and the local session has no tabs, it reports \<open>No browser tabs found\<close> with
  \<open>err\<close> set and resets the local generation to \<open>-1\<close>; nothing else changes.
\<close>

theorem getSessionDiff_local_uninitialized:
  "generation loc < Finite 0 \<or> tabs loc = [] \<Longrightarrow>
   getSessionDiff loc rem =
     (if generation loc < Finite 0
      then (\<lparr>major = ''Local browser not initialized yet'', minor = '''', err = True\<rparr>,
            loc, rem)
      else (\<lparr>major = ''No browser tabs found'', minor = '''', err = True\<rparr>,
            loc\<lparr>generation := Finite (- 1)\<rparr>, rem))"
  by (auto simp add: getSessionDiff_def)

theorem getSessionDiff_local_uninitialized_witness:
  "(generation (TabberSession None) < Finite 0 \<or> tabs (TabberSession None) = []) \<and>
   getSessionDiff (TabberSession None) sessionAB =
     (\<lparr>major = ''Local browser not initialized yet'', minor = '''', err = True\<rparr>,
      TabberSession None, sessionAB) \<and>
   (generation sessionNoTabs < Finite 0 \<or> tabs sessionNoTabs = []) \<and>
   getSessionDiff sessionNoTabs sessionAB =
     (\<lparr>major = ''No browser tabs found'', minor = '''', err = True\<rparr>,
      sessionNoTabs\<lparr>generation := Finite (- 1)\<rparr>, sessionAB)"
  using getSessionDiff_local_uninitialized [of "TabberSession None" sessionAB]
    getSessionDiff_local_uninitialized [of sessionNoTabs sessionAB]
  by (simp add: TabberSession_def sessionNoTabs_def)

text \<open>
  C4 as stated promises the text \<open>Local browser not initialized yet\<close> for a local session
  without tabs.  A local session of generation 1 without tabs gets another text.
\<close>

theorem getSessionDiff_no_tabs_counterexample:
  "tabs sessionNoTabs = [] \<and>
   major (fst (getSessionDiff sessionNoTabs sessionAB)) = ''No browser tabs found'' \<and>
   major (fst (getSessionDiff sessionNoTabs sessionAB)) \<noteq> ''Local browser not initialized yet''"
  by (simp add: getSessionDiff_def sessionNoTabs_def)

text \<open>
  The path of \<open>getSessionDiff\<close> that reports a difference.  Both sessions pass the four
  guards (no generation is negative, no tab list is empty).  The remote session is
  unchanged, and the local session is unchanged but for its generation, which is
  incremented when the two generations were equal and is unchanged when they differed.
\<close>

lemma getSessionDiff_difference:
  assumes "\<not> generation loc < Finite 0" and "tabs loc \<noteq> []"
    and "\<not> generation rem < Finite 0" and "tabs rem \<noteq> []"
    and "getSessionDiff loc rem = (d, loc', rem')"
    and "major d \<noteq> '''' \<or> minor d \<noteq> ''''"
  shows "rem' = rem \<and>
         loc' = loc\<lparr>generation := (if equals (generation loc) (generation rem)
                                     then increment (generation loc) else generation loc)\<rparr>"
  using assms
  by (auto simp add: getSessionDiff_def Let_def split: if_splits)

text \<open>
  Up to \<^verbatim>\<open>2^53 - 1\<close> the increment of a whole generation is exact, so that a tie of
  such generations ends with the local generation one above the remote one.
\<close>

lemma getSessionDiff_tie_break_exact:
  assumes "generation loc = Finite (of_int g)" and "0 \<le> g" and "g < 2 ^ 53"
    and "generation rem = generation loc"
    and "tabs loc \<noteq> []" and "tabs rem \<noteq> []"
    and "getSessionDiff loc rem = (d, loc', rem')"
    and "major d \<noteq> '''' \<or> minor d \<noteq> ''''"
  shows "rem' = rem \<and> loc' = loc\<lparr>generation := Finite (of_int (g + 1))\<rparr>"
proof -
  from assms(1,2) have locg: "\<not> generation loc < Finite 0" by simp
  with assms(4) have remg: "\<not> generation rem < Finite 0" by simp
  from assms(1,4) have tie: "equals (generation loc) (generation rem)"
    by (simp add: equals_def)
  from assms(2) have "- (2 ^ 53) \<le> g" by simp
  then have "increment (generation loc) = Finite (of_int (g + 1))"
    unfolding assms(1) using assms(3) by (rule increment_of_int)
  with getSessionDiff_difference [OF locg assms(5) remg assms(6,7,8)] tie
  show ?thesis by simp
qed



section \<open>Window affinity score\<close>

lemma scoreInner_sum: "scoreInner t1 ts s = s + (\<Sum>t2\<leftarrow>ts. pairPoints t1 t2)"
  by (induction ts arbitrary: s) (auto simp add: pairPoints_def Let_def)

lemma scoreOuter_sum: "scoreOuter ts1 ts2 s = s + specScore ts1 ts2"
  by (induction ts1 arbitrary: s) (auto simp add: specScore_def scoreInner_sum)

lemma specScore_replicate: "specScore (replicate m t) (replicate n t) = 9 * m * n"
  by (simp add: specScore_def pairPoints_def sum_list_replicate)

text \<open>
  C6.  The score that the two loops of \<open>getWindowScore\<close> compute is the sum, over all
  ordered pairs of a tab of the first grouping and a tab of the second, of the points of
  the pair: 5 for equal urls, 3 more for equal indexes as well, 1 more for equal active
  flags as well, and 0 for unequal urls.  There is no cap: \<open>m\<close> copies of a tab against
  \<open>n\<close> copies of it score \<open>9 * m * n\<close>.
\<close>

theorem getWindowScore_sum:
  "getWindowScore tabs1 tabs2 = specScore tabs1 tabs2 \<and>
   specScore tabs1 tabs2 =
     (\<Sum>t1\<leftarrow>tabs1. \<Sum>t2\<leftarrow>tabs2.
        if url t1 = url t2
        then 5 + (if index t1 = index t2 then 3 else 0) + (if active t1 = active t2 then 1 else 0)
        else 0) \<and>
   getWindowScore (replicate m t) (replicate n t) = 9 * m * n"
  using scoreOuter_sum [of tabs1 tabs2 0] scoreOuter_sum [of "replicate m t" "replicate n t" 0]
    specScore_replicate [of m t n]
  by (simp add: getWindowScore_def specScore_def pairPoints_def)

section \<open>Window affinity matcher: greedy acceptance\<close>

lemma set_insertSorted: "set (insertSorted e xs) = insert e (set xs)"
  by (induction xs) auto

lemma descending_insertSorted:
  "sorted_wrt byScore xs \<Longrightarrow> sorted_wrt byScore (insertSorted e xs)"
  by (induction xs) (auto simp add: set_insertSorted compareScores_def split: if_splits)

lemma foldl_insertSorted:
  "set (foldl (\<lambda>sorted e. insertSorted e sorted) acc ms) = set acc \<union> set ms \<and>
   (sorted_wrt byScore acc \<longrightarrow>
    sorted_wrt byScore (foldl (\<lambda>sorted e. insertSorted e sorted) acc ms))"
  by (induction ms arbitrary: acc) (auto simp add: set_insertSorted descending_insertSorted)

lemma set_sortMapScores: "set (sortMapScores ms) = set ms"
  by (simp add: sortMapScores_def foldl_insertSorted)

lemma descending_sortMapScores: "sorted_wrt byScore (sortMapScores ms)"
  by (simp add: sortMapScores_def foldl_insertSorted)

lemma map_of_zip_snoc:
  assumes "length rs = length ls" and "r \<notin> set rs"
  shows "[r \<mapsto> l] ++ map_of (zip rs ls) = (map_of (zip rs ls))(r \<mapsto> l)"
proof (rule ext)
  fix x
  from assms have none: "map_of (zip rs ls) r = None"
    by simp
  show "([r \<mapsto> l] ++ map_of (zip rs ls)) x = ((map_of (zip rs ls))(r \<mapsto> l)) x"
    by (cases "x = r") (simp_all add: map_add_def none split: option.splits)
qed

lemma consistent_acceptLoop: "consistent m \<Longrightarrow> consistent (acceptLoop es m)"
proof (induction es arbitrary: m)
  case Nil
  then show ?case by simp
next
  case (Cons e es)
  show ?case
  proof (cases "rwid e \<notin> set (matchedRemIds m) \<and> lwid e \<notin> set (matchedLocIds m)")
    case True
    let ?m' = "\<lparr>matchedRemIds = matchedRemIds m @ [rwid e],
              matchedLocIds = matchedLocIds m @ [lwid e],
              locIdByRemId = (locIdByRemId m)(rwid e \<mapsto> lwid e)\<rparr>"
    from Cons.prems True have "consistent ?m'"
      by (simp add: consistent_def map_of_zip_snoc)
    then have "consistent (acceptLoop es ?m')" by (rule Cons.IH)
    with True show ?thesis by simp
  next
    case False
    with Cons show ?thesis by auto
  qed
qed

lemma acceptLoop_keeps:
  "r \<in> set (matchedRemIds m) \<Longrightarrow> locIdByRemId (acceptLoop es m) r = locIdByRemId m r"
  by (induction es arbitrary: m) auto

lemma acceptLoop_first:
  "locIdByRemId (acceptLoop (e # es)
      \<lparr>matchedRemIds = [], matchedLocIds = [], locIdByRemId = Map.empty\<rparr>) (rwid e) =
   Some (lwid e)"
  by (simp add: acceptLoop_keeps)

lemma top_first:
  assumes "sorted_wrt byScore (h # rest)" and "e \<in> set (h # rest)"
    and "\<forall>e'\<in>set (h # rest). (lwid e', rwid e') \<noteq> (lwid e, rwid e) \<longrightarrow> score e' < score e"
  shows "lwid h = lwid e \<and> rwid h = rwid e"
proof (rule ccontr)
  assume "\<not> (lwid h = lwid e \<and> rwid h = rwid e)"
  with assms(3) have "score h < score e" by auto
  moreover from assms(1,2) have "score e \<le> score h" by auto
  ultimately show False by simp
qed

text \<open>
  C5.  For every list of scored pairs, whatever the scores: the accepted remote ids are
  pairwise different and so are the accepted local ids, the \<open>i\<close>-th accepted remote id
  is mapped to the \<open>i\<close>-th accepted local id and the final map is exactly this
  pairing, so no window of either side is in two accepted pairs.  And a pair of the list
  that scores strictly higher than every pair of other windows is accepted: the final
  map sends its remote id to its local id.
\<close>

theorem mapWindows_greedy:
  "distinct (matchedRemIds (mapWindows ms)) \<and>
   distinct (matchedLocIds (mapWindows ms)) \<and>
   length (matchedRemIds (mapWindows ms)) = length (matchedLocIds (mapWindows ms)) \<and>
   locIdByRemId (mapWindows ms) =
     map_of (zip (matchedRemIds (mapWindows ms)) (matchedLocIds (mapWindows ms))) \<and>
   (e \<in> set ms \<and>
    (\<forall>e'\<in>set ms. (lwid e', rwid e') \<noteq> (lwid e, rwid e) \<longrightarrow> score e' < score e) \<longrightarrow>
    locIdByRemId (mapWindows ms) (rwid e) = Some (lwid e))"
proof -
  have "consistent \<lparr>matchedRemIds = [], matchedLocIds = [], locIdByRemId = Map.empty\<rparr>"
    by (simp add: consistent_def)
  then have "consistent (mapWindows ms)"
    unfolding mapWindows_def by (rule consistent_acceptLoop)
  then have one: "distinct (matchedRemIds (mapWindows ms)) \<and>
   distinct (matchedLocIds (mapWindows ms)) \<and>
   length (matchedRemIds (mapWindows ms)) = length (matchedLocIds (mapWindows ms)) \<and>
   locIdByRemId (mapWindows ms) =
     map_of (zip (matchedRemIds (mapWindows ms)) (matchedLocIds (mapWindows ms)))"
    by (simp add: consistent_def)
  have top: "locIdByRemId (mapWindows ms) (rwid e) = Some (lwid e)"
    if mem: "e \<in> set ms"
      and best: "\<forall>e'\<in>set ms. (lwid e', rwid e') \<noteq> (lwid e, rwid e) \<longrightarrow> score e' < score e"
  proof -
    from mem have "sortMapScores ms \<noteq> []"
      using set_sortMapScores [of ms] by auto
    then obtain h rest where hr: "sortMapScores ms = h # rest"
      by (cases "sortMapScores ms") auto
    have "sorted_wrt byScore (h # rest)"
      using descending_sortMapScores [of ms] hr by simp
    moreover have "set (h # rest) = set ms"
      using set_sortMapScores [of ms] hr by simp
    ultimately have "lwid h = lwid e \<and> rwid h = rwid e"
      using mem best top_first [of h rest e] by simp
    with acceptLoop_first [of h rest] hr show ?thesis
      by (simp add: mapWindows_def)
  qed
  from one top show ?thesis by blast
qed

text \<open>
  On the example the pair of local window 10 and remote window 8 scores 14, more than
  any other pair; it is accepted, and then the pair of local 11 and remote 7.
\<close>

theorem mapWindows_greedy_witness:
  "locIdByRemId (mapWindows exampleScores) ''8'' = Some ''10'' \<and>
   distinct (matchedRemIds (mapWindows exampleScores)) \<and>
   distinct (matchedLocIds (mapWindows exampleScores)) \<and>
   matchedRemIds (mapWindows exampleScores) = [''8'', ''7''] \<and>
   matchedLocIds (mapWindows exampleScores) = [''10'', ''11'']"
proof -
  have lists: "matchedRemIds (mapWindows exampleScores) = [''8'', ''7'']"
    "matchedLocIds (mapWindows exampleScores) = [''10'', ''11'']"
    by (simp_all add: mapWindows_def sortMapScores_def exampleScores_def compareScores_def)
  have mem: "\<lparr>lwid = ''10'', rwid = ''8'', score = 14\<rparr> \<in> set exampleScores"
    by (simp add: exampleScores_def)
  have best: "\<forall>e'\<in>set exampleScores.
      (lwid e', rwid e') \<noteq> (lwid \<lparr>lwid = ''10'', rwid = ''8'', score = 14\<rparr>,
                              rwid \<lparr>lwid = ''10'', rwid = ''8'', score = 14\<rparr>) \<longrightarrow>
      score e' < score \<lparr>lwid = ''10'', rwid = ''8'', score = 14\<rparr>"
    by (simp add: exampleScores_def)
  note greedy = mapWindows_greedy [of exampleScores "\<lparr>lwid = ''10'', rwid = ''8'', score = 14\<rparr>"]
  from greedy mem best
  have "locIdByRemId (mapWindows exampleScores) (rwid \<lparr>lwid = ''10'', rwid = ''8'', score = 14\<rparr>) =
        Some (lwid \<lparr>lwid = ''10'', rwid = ''8'', score = 14\<rparr>)"
    by blast
  then have "locIdByRemId (mapWindows exampleScores) ''8'' = Some ''10''"
    by simp
  moreover from greedy have "distinct (matchedRemIds (mapWindows exampleScores))"
    and "distinct (matchedLocIds (mapWindows exampleScores))"
    by blast+
  ultimately show ?thesis using lists by blast
qed

section \<open>Session codec: decimal keys\<close>

lemma digit_nth:
  assumes "k < 10"
  shows "isDigit (''0123456789'' ! k) \<and> of_char (''0123456789'' ! k) - 48 = k \<and>
         CHR ''_'' \<noteq> ''0123456789'' ! k"
proof -
  from assms have "k \<in> {0, 1, 2, 3, 4, 5, 6, 7, 8, 9}"
    by auto
  then show ?thesis
    by (auto simp add: isDigit_def)
qed

lemma dec_digits: "dec n \<noteq> [] \<and> list_all isDigit (dec n) \<and> CHR ''_'' \<notin> set (dec n)"
proof (induction n rule: dec.induct)
  case (1 n)
  show ?case
  proof (cases "n < 10")
    case True
    then show ?thesis using digit_nth [of n] by (simp add: dec.simps [of n])
  next
    case False
    moreover have "n mod 10 < 10" by simp
    ultimately show ?thesis using 1 digit_nth [of "n mod 10"]
      by (simp add: dec.simps [of n])
  qed
qed

lemma digitsValue_snoc: "digitsValue (cs @ [c]) acc = 10 * digitsValue cs acc + (of_char c - 48)"
  by (induction cs arbitrary: acc) simp_all

lemma digitsValue_dec: "digitsValue (dec n) 0 = n"
proof (induction n rule: dec.induct)
  case (1 n)
  show ?case
  proof (cases "n < 10")
    case True
    then show ?thesis using digit_nth [of n] by (simp add: dec.simps [of n])
  next
    case False
    moreover have "n mod 10 < 10" by simp
    ultimately show ?thesis using 1 digit_nth [of "n mod 10"]
      by (simp add: dec.simps [of n] digitsValue_snoc)
  qed
qed

lemma dec_inject: "dec m = dec n \<Longrightarrow> m = n"
  by (metis digitsValue_dec)

lemma takeWhile_all: "list_all P xs \<Longrightarrow> takeWhile P xs = xs"
  by (induction xs) simp_all

lemma whiteSpace_no_digit: "w \<in> set whiteSpace \<Longrightarrow> w \<noteq> [] \<and> \<not> isDigit (hd w)"
  unfolding whiteSpace_def by (auto simp add: isDigit_def)

lemma skipWhiteSpace_digit:
  assumes "isDigit c"
  shows "skipWhiteSpace (c # cs) = c # cs"
proof -
  have "\<not> startsWith (c # cs) w" if "w \<in> set whiteSpace" for w
  proof
    assume "startsWith (c # cs) w"
    then have w: "take (length w) (c # cs) = w" by (simp add: startsWith_def)
    from whiteSpace_no_digit [OF that] obtain x xs where "w = x # xs" and "\<not> isDigit x"
      by (cases w) auto
    with w assms show False by simp
  qed
  then have "find (startsWith (c # cs)) whiteSpace = None"
    by (simp add: find_None_iff)
  then show ?thesis
    by (simp add: skipWhiteSpace.simps [of "c # cs"])
qed

lemma parseInt_dec: "parseInt (dec n) = toDouble (of_nat n)"
proof -
  obtain c cs where cs: "dec n = c # cs"
    using dec_digits [of n] by (cases "dec n") auto
  with dec_digits [of n] have c: "isDigit c" by simp
  then have "skipWhiteSpace (c # cs) = c # cs" "c \<noteq> CHR ''-''" "c \<noteq> CHR ''+''"
    by (auto simp add: isDigit_def skipWhiteSpace_digit)
  moreover have "takeWhile isDigit (c # cs) = c # cs"
    using dec_digits [of n] cs takeWhile_all [of isDigit "dec n"] by simp
  ultimately show ?thesis
    using digitsValue_dec [of n] cs by (simp add: parseInt_def Let_def)
qed

text \<open>
  Two readings by \<open>parseInt\<close>: a no-break space before the digits is skipped, and an
  integer above \<^verbatim>\<open>2^53\<close> is rounded.
\<close>

lemma skipWhiteSpace_no_break_space:
  "skipWhiteSpace ([CHR 0xC2, CHR 0xA0] @ ''5'') = ''5''"
proof -
  have "find (startsWith ([CHR 0xC2, CHR 0xA0] @ ''5'')) whiteSpace = Some [CHR 0xC2, CHR 0xA0]"
    by (simp add: whiteSpace_def startsWith_def)
  moreover have "isDigit CHR ''5''" by (simp add: isDigit_def)
  then have "skipWhiteSpace ''5'' = ''5''" by (rule skipWhiteSpace_digit)
  ultimately show ?thesis
    by (simp add: skipWhiteSpace.simps [of "[CHR 0xC2, CHR 0xA0, CHR ''5'']"])
qed

lemma parseInt_no_break_space: "parseInt ([CHR 0xC2, CHR 0xA0] @ ''5'') = Finite 5"
proof -
  have "toDouble (of_int 5) = Finite (of_int 5)"
    by (rule toDouble_of_int) simp
  then show ?thesis
    using skipWhiteSpace_no_break_space by (simp add: parseInt_def isDigit_def)
qed

lemma parseInt_rounds: "parseInt ''9007199254740993'' = Finite 9007199254740992"
proof -
  have "isDigit CHR ''9''" by (simp add: isDigit_def)
  then have "skipWhiteSpace ''9007199254740993'' = ''9007199254740993''"
    by (rule skipWhiteSpace_digit)
  moreover have "toDouble (of_nat 9007199254740993) = Finite (of_nat 9007199254740992)"
    unfolding toDouble_of_nat roundNat_2_53_1 by simp
  then have "toDouble 9007199254740993 = Finite 9007199254740992" by simp
  ultimately show ?thesis
    by (simp add: parseInt_def isDigit_def)
qed

lemma split_no_sep: "sep \<notin> set cs \<Longrightarrow> split cs sep = [cs]"
  by (induction cs) auto

lemma split_Tab: "split (''Tab_'' @ dec n) CHR ''_'' = [''Tab'', dec n]"
  using dec_digits [of n] by (simp add: split_no_sep)

section \<open>Session codec: round trip and property updates\<close>

lemma setProp_fresh: "k \<notin> fst ` set obj \<Longrightarrow> setProp obj k v = obj @ [(k, v)]"
  by (induction obj) auto

lemma addTabs_append:
  "\<forall>j\<ge>t. ''Tab_'' @ dec j \<notin> fst ` set obj \<Longrightarrow> addTabs xs t obj = obj @ tabEntries t xs"
proof (induction xs arbitrary: t obj)
  case Nil
  then show ?case by simp
next
  case (Cons x xs)
  let ?obj = "obj @ [(''Tab_'' @ dec t, JTab x)]"
  from Cons.prems have step: "setProp obj (''Tab_'' @ dec t) (JTab x) = ?obj"
    by (simp add: setProp_fresh)
  have "\<forall>j\<ge>Suc t. ''Tab_'' @ dec j \<notin> fst ` set ?obj"
    using Cons.prems by (auto dest: dec_inject)
  then have "addTabs xs (Suc t) ?obj = ?obj @ tabEntries (Suc t) xs"
    by (rule Cons.IH)
  with step show ?case by simp
qed

lemma toSync_entries:
  "toSync s =
     [(''description'', JString (description s)),
      (''generation'', JNumber (generation s)),
      (''numtabs'', JNumber (Finite (of_nat (length (tabs s))))),
      (''updateTime'', (case updateTime s of None \<Rightarrow> JBoolean False | Some n \<Rightarrow> JNumber n))]
     @ tabEntries 0 (tabs s)"
  by (simp add: toSync_def ownProperties_def addTabs_append)

lemma fromSyncLoop_tabEntries:
  "fromSyncLoop (tabEntries t xs) s = Some (s\<lparr>tabs := tabs s @ xs\<rparr>)"
  by (induction xs arbitrary: t s) (simp_all add: startsWith_def)

lemma fromSync_toSync:
  "fromSync (toSync s) (TabberSession None) =
     Some (s\<lparr>numtabs := Finite (of_nat (length (tabs s)))\<rparr>)"
  by (cases s)
     (simp add: toSync_entries fromSync_def fromSyncLoop_tabEntries startsWith_def
        assignProp_def TabberSession_def split: option.splits)

text \<open>
  C2, as the code has it.  For every valid session (generation not negative, a numeric
  timestamp, at least one tab, every tab with a non-negative index and a non-negative
  id), decoding the encoded record into a freshly constructed session succeeds and
  yields the description, generation, timestamp and tabs of the session, the tabs in
  the same order, with \<open>numtabs\<close> equal to the number of tabs.  The result is the
  session itself when its \<open>numtabs\<close> was the number of its tabs.
\<close>

theorem codec_round_trip:
  assumes "isSessionValid s" and "Finite 0 \<le> generation s"
  shows "fromSync (toSync s) (TabberSession None) =
           Some (s\<lparr>numtabs := Finite (of_nat (length (tabs s)))\<rparr>)"
  by (rule fromSync_toSync)

text \<open>The session \<open>[A, B, C]\<close> with \<open>numtabs = 3\<close> is valid and comes back unchanged.\<close>

theorem codec_round_trip_witness:
  "isSessionValid sessionABC \<and> Finite 0 \<le> generation sessionABC \<and>
   fromSync (toSync sessionABC) (TabberSession None) = Some sessionABC"
proof -
  have valid: "isSessionValid sessionABC" and gen: "Finite 0 \<le> generation sessionABC"
    by (simp_all add: isSessionValid_def sessionABC_def tabA_def tabB_def tabC_def
        less_eq_number_def)
  have "sessionABC\<lparr>numtabs := Finite (of_nat (length (tabs sessionABC)))\<rparr> = sessionABC"
    by (simp add: sessionABC_def)
  with codec_round_trip [OF valid gen] valid gen show ?thesis
    by simp
qed

text \<open>
  C2 as stated includes \<open>numtabs\<close> in the equality.  The validity test does not look
  at \<open>numtabs\<close>, and the encoder writes the number of tabs instead of it: a valid
  session whose \<open>numtabs\<close> is stale does not come back equal.
\<close>

theorem codec_round_trip_counterexample:
  "isSessionValid staleSession \<and> Finite 0 \<le> generation staleSession \<and>
   fromSync (toSync staleSession) (TabberSession None) =
     Some (staleSession\<lparr>numtabs := Finite 3\<rparr>) \<and>
   fromSync (toSync staleSession) (TabberSession None) \<noteq> Some staleSession"
proof -
  have "isSessionValid staleSession" and "Finite 0 \<le> generation staleSession"
    by (simp_all add: isSessionValid_def staleSession_def tabA_def tabB_def tabC_def
        less_eq_number_def)
  moreover have "fromSync (toSync staleSession) (TabberSession None) =
      Some (staleSession\<lparr>numtabs := Finite 3\<rparr>)"
    using fromSync_toSync [of staleSession] by (simp add: staleSession_def)
  moreover have "staleSession\<lparr>numtabs := Finite 3\<rparr> \<noteq> staleSession"
    by (simp add: staleSession_def)
  ultimately show ?thesis by simp
qed

lemma update_stale_tab:
  assumes "isNumber (numtabs s)" and "numtabs s \<le> Finite (of_nat n)"
  shows "update s (''Tab_'' @ dec n) v = Some (False, s)"
proof -
  define key where "key = ''Tab_'' @ dec n"
  have valid: "isPropertyValid key" and starts: "startsWith key ''Tab_''"
    by (simp_all add: key_def isPropertyValid_def startsWith_def)
  have parts: "split key CHR ''_'' = [''Tab'', dec n]"
    unfolding key_def by (rule split_Tab)
  from assms have "numtabs s \<le> toDouble (of_nat n)"
    by (rule isNumber_lower)
  then have "update s key v = Some (False, s)"
    by (simp add: update_def valid starts parts parseInt_dec)
  then show ?thesis
    by (simp only: key_def)
qed

lemma update_numtabs_truncates:
  "k < length (tabs s) \<Longrightarrow>
   update s ''numtabs'' (JNumber (Finite (of_nat k))) =
     Some (True, s\<lparr>tabs := take k (tabs s), numtabs := Finite (of_nat k)\<rparr>)"
  by (simp add: update_def isPropertyValid_def startsWith_def sessionMembers_def assignProp_def
      slice0_def)

lemma update_tabs_rejected: "update s ''tabs'' v = Some (False, s)"
  by (simp add: update_def isPropertyValid_def startsWith_def)

text \<open>
  C7, as the code has it.  For every session, every natural number \<open>n\<close> and every
  value: the key \<open>Tab_n\<close> is rejected and the session unchanged when \<open>n\<close> is not below
  \<open>numtabs\<close> (\<open>n\<close> itself, whatever \<^verbatim>\<open>parseInt\<close> rounds it to).  Here \<open>numtabs\<close> is any
  JavaScript number: \<open>isNumber\<close> only says that the rational standing for a finite one
  is a double.  For the key \<open>numtabs\<close> and a value that is a non-negative integer below
  the current number of tabs, the update is accepted, \<open>numtabs\<close> becomes the value and
  the tabs are cut to exactly that many.  The key \<open>tabs\<close> is always rejected.
\<close>

theorem update_rejects_and_truncates:
  "(isNumber (numtabs s) \<and> numtabs s \<le> Finite (of_nat n) \<longrightarrow>
      update s (''Tab_'' @ dec n) v = Some (False, s)) \<and>
   (k < length (tabs s) \<longrightarrow>
      update s ''numtabs'' (JNumber (Finite (of_nat k))) =
        Some (True, s\<lparr>tabs := take k (tabs s), numtabs := Finite (of_nat k)\<rparr>) \<and>
      length (take k (tabs s)) = k) \<and>
   update s ''tabs'' v = Some (False, s)"
  using update_stale_tab [of s n v] update_numtabs_truncates [of k s] update_tabs_rejected [of s v]
  by auto

text \<open>
  \<open>Tab_2\<close> on a session of two tabs, \<open>numtabs = 2\<close> on a session of three, and the
  key \<open>tabs\<close>.
\<close>

theorem update_rejects_and_truncates_witness:
  "isNumber (numtabs sessionAB) \<and> numtabs sessionAB \<le> Finite (of_nat 2) \<and>
   update sessionAB ''Tab_2'' (JTab tabC) = Some (False, sessionAB) \<and>
   2 < length (tabs sessionABC) \<and>
   update sessionABC ''numtabs'' (JNumber (Finite 2)) =
     Some (True, sessionABC\<lparr>tabs := [tabA, tabB], numtabs := Finite 2\<rparr>) \<and>
   update sessionABC ''tabs'' (JNumber (Finite 2)) = Some (False, sessionABC)"
proof -
  have "toDouble (of_int 2) = Finite (of_int 2)"
    by (rule toDouble_of_int) simp
  then have num: "isNumber (numtabs sessionAB)"
    by (simp add: sessionAB_def isNumber_def)
  have stale: "numtabs sessionAB \<le> Finite (of_nat 2)"
    by (simp add: sessionAB_def less_eq_number_def)
  have key: "''Tab_'' @ dec 2 = ''Tab_2''"
    by (simp add: dec.simps)
  from update_rejects_and_truncates [of sessionAB 2 "JTab tabC" 0] num stale key
  have one: "update sessionAB ''Tab_2'' (JTab tabC) = Some (False, sessionAB)"
    by simp
  have range: "2 < length (tabs sessionABC)"
    by (simp add: sessionABC_def)
  from update_rejects_and_truncates [of sessionABC 0 "JNumber (Finite 2)" 2] range
  have two: "update sessionABC ''numtabs'' (JNumber (Finite (of_nat 2))) =
     Some (True, sessionABC\<lparr>tabs := take 2 (tabs sessionABC), numtabs := Finite (of_nat 2)\<rparr>)"
    and three: "update sessionABC ''tabs'' (JNumber (Finite 2)) = Some (False, sessionABC)"
    by blast+
  have "take 2 (tabs sessionABC) = [tabA, tabB]"
    by (simp add: sessionABC_def)
  with num stale one range two three show ?thesis by simp
qed

text \<open>
  C7 as stated covers every value below the number of tabs.  The value \<open>-1\<close> is one:
  the update is accepted, \<^verbatim>\<open>slice(0, -1)\<close> drops the last tab only, and the session of
  two tabs is left with one tab and \<open>numtabs = -1\<close>.  The value \<open>3/2\<close> is another:
  \<^verbatim>\<open>slice(0, 1.5)\<close> keeps one tab of three, and \<open>numtabs\<close> is \<open>3/2\<close>.
\<close>

theorem update_numtabs_counterexample:
  "Finite (- 1) < Finite (of_nat (length (tabs sessionAB))) \<and>
   update sessionAB ''numtabs'' (JNumber (Finite (- 1))) =
     Some (True, sessionAB\<lparr>tabs := [tabA], numtabs := Finite (- 1)\<rparr>) \<and>
   Finite (of_nat (length [tabA])) \<noteq> Finite (- 1) \<and>
   Finite (3 / 2) < Finite (of_nat (length (tabs sessionABC))) \<and>
   update sessionABC ''numtabs'' (JNumber (Finite (3 / 2))) =
     Some (True, sessionABC\<lparr>tabs := [tabA], numtabs := Finite (3 / 2)\<rparr>) \<and>
   Finite (of_nat (length [tabA])) \<noteq> Finite (3 / 2)"
proof -
  have "\<lfloor>3 / 2 :: rat\<rfloor> = 1"
    by (simp add: floor_eq_iff)
  then show ?thesis
    by (simp add: update_def isPropertyValid_def startsWith_def sessionMembers_def
        assignProp_def slice0_def sessionAB_def sessionABC_def)
qed

section \<open>Reconciliation controller: options and push\<close>

text \<open>
  C8, as the code has it.  When the configuration carries a mode that is none of the
  four recognized ones, \<open>setOptions\<close> alerts the user, keeps the stored mode and
  persists nothing; every other field of the controller is unchanged, except that the
  debug flag is still set from the configuration when it carries one.  Without a
  \<open>debug\<close> property the debug flag is unchanged too.
\<close>

theorem setOptions_unsupported_mode:
  assumes "mode cfg = Some m"
    and "m \<notin> {''autosync'', ''autostart'', ''autosave'', ''manual''}"
  shows "setOptions cfg tbr =
           tbr\<lparr>alerts := alerts tbr @ [''Unsupported Tabber operational mode: '' @ m],
               debug := (case cfg_debug cfg of None \<Rightarrow> debug tbr | Some d \<Rightarrow> d)\<rparr> \<and>
         options_mode (setOptions cfg tbr) = options_mode tbr \<and>
         storageLocalSet (setOptions cfg tbr) = storageLocalSet tbr \<and>
         (cfg_debug cfg = None \<longrightarrow> debug (setOptions cfg tbr) = debug tbr)"
  using assms by (cases "cfg_debug cfg") (auto simp add: setOptions_def Let_def)

text \<open>The mode \<open>turbo\<close> without a debug property: only the alert happens.\<close>

theorem setOptions_unsupported_mode_witness:
  "setOptions \<lparr>mode = Some ''turbo'', cfg_debug = None\<rparr> exampleTabber =
     exampleTabber\<lparr>alerts := [''Unsupported Tabber operational mode: turbo'']\<rparr> \<and>
   options_mode (setOptions \<lparr>mode = Some ''turbo'', cfg_debug = None\<rparr> exampleTabber) = ''autosave'' \<and>
   storageLocalSet (setOptions \<lparr>mode = Some ''turbo'', cfg_debug = None\<rparr> exampleTabber) = []"
proof -
  have m: "mode \<lparr>mode = Some ''turbo'', cfg_debug = None\<rparr> = Some ''turbo''"
    by simp
  have unknown: "''turbo'' \<notin> {''autosync'', ''autostart'', ''autosave'', ''manual''}"
    by simp
  from setOptions_unsupported_mode [OF m unknown, of exampleTabber]
  show ?thesis
    by (simp add: exampleTabber_def)
qed

text \<open>
  C8 as stated keeps the debug flag.  The same unsupported mode together with
  \<open>debug: true\<close> turns the flag on.
\<close>

theorem setOptions_debug_counterexample:
  "mode \<lparr>mode = Some ''turbo'', cfg_debug = Some True\<rparr> = Some ''turbo'' \<and>
   ''turbo'' \<notin> {''autosync'', ''autostart'', ''autosave'', ''manual''} \<and>
   debug exampleTabber = False \<and>
   debug (setOptions \<lparr>mode = Some ''turbo'', cfg_debug = Some True\<rparr> exampleTabber) = True"
  by (simp add: setOptions_def Let_def exampleTabber_def)

lemma toSync_generation: "map_of (toSync s) ''generation'' = Some (JNumber (generation s))"
  by (simp add: toSync_entries)

text \<open>
  \<open>saveLocalToRemote\<close> pushes exactly one record, the encoding of the local session as
  it is after the generation was adjusted, and the record carries that generation under
  the key \<open>generation\<close>: the incremented remote generation when the local generation
  was not greater, and the local generation otherwise.  The remote session is not
  touched.
\<close>

lemma saveLocalToRemote_push:
  "storageSyncSet (saveLocalToRemote tbr) =
     storageSyncSet tbr @ [toSync (localSession (saveLocalToRemote tbr))] \<and>
   map_of (toSync (localSession (saveLocalToRemote tbr))) ''generation'' =
     Some (JNumber (generation (localSession (saveLocalToRemote tbr)))) \<and>
   generation (localSession (saveLocalToRemote tbr)) =
     (if generation (localSession tbr) \<le> generation (remoteSession tbr)
      then increment (generation (remoteSession tbr)) else generation (localSession tbr)) \<and>
   remoteSession (saveLocalToRemote tbr) = remoteSession tbr"
  using toSync_generation [of "localSession (saveLocalToRemote tbr)"]
  by (simp add: saveLocalToRemote_def Let_def)

text \<open>
  For a whole remote generation from \<^verbatim>\<open>-2^53\<close> to \<^verbatim>\<open>2^53 - 1\<close> and a local generation
  other than \<^verbatim>\<open>NaN\<close>, the generation pushed is strictly greater than the remote one.
\<close>

lemma saveLocalToRemote_generation_exact:
  assumes "generation (remoteSession tbr) = Finite (of_int g)"
    and "- (2 ^ 53) \<le> g" and "g < 2 ^ 53"
    and "generation (localSession tbr) \<noteq> NaN"
  shows "generation (remoteSession tbr) < generation (localSession (saveLocalToRemote tbr))"
proof (cases "generation (localSession tbr) \<le> generation (remoteSession tbr)")
  case True
  from assms(2,3) have "increment (Finite (of_int g)) = Finite (of_int (g + 1))"
    by (rule increment_of_int)
  with True assms(1) show ?thesis
    by (simp add: saveLocalToRemote_push)
next
  case False
  with assms(1,4) have "generation (remoteSession tbr) < generation (localSession tbr)"
    by (simp add: less_eq_number_def)
  with False show ?thesis
    by (simp add: saveLocalToRemote_push)
qed


section \<open>Phase sequencer: the barrier\<close>

lemma follow_append:
  "follow p (l @ r) = (case follow p l of None \<Rightarrow> None | Some q \<Rightarrow> follow q r)"
  by (induction p l rule: follow.induct) simp_all

lemma follow_prefix:
  assumes "prefix a b" and "follow p b \<noteq> None"
  shows "follow p a \<noteq> None"
proof -
  from assms(1) obtain r where "b = a @ r"
    by (auto simp add: prefix_def)
  with assms(2) show ?thesis
    by (auto simp add: follow_append split: option.splits)
qed

lemma changeDoneEnd_grows: "prefix (history h) (history (changeDoneEnd h))"
  by (simp add: changeDoneEnd_def Let_def)

lemma grows:
  "prefix (history h) (history (run cs h))"
  "prefix (history h) (history (perform c h))"
  "prefix (history h) (history (changeDone body h))"
proof (induction cs h and c h and body h rule: run_perform_changeDone.induct)
  case (1 h)
  show ?case by simp
next
  case (2 c cs h)
  then show ?case
    using prefix_order.trans by fastforce
next
  case (3 h)
  show ?case by (simp add: doStep_def)
next
  case (4 h)
  show ?case by (simp add: setDoStepCallback_def)
next
  case (5 body h)
  have "prefix (history h) (history (h\<lparr>history := history h @ [Completed]\<rparr>))"
    by simp
  with 5 show ?case
    using prefix_order.trans by fastforce
next
  case (6 body h)
  let ?h = "h\<lparr>pending_changes := False, history := history h @ [Finalized]\<rparr>"
  have first: "prefix (history h) (history ?h)"
    by simp
  show ?case
  proof (cases "change_count h = 0")
    case True
    with 6 have "prefix (history ?h) (history (changeDone body ?h))"
      by simp
    with first have "prefix (history h) (history (changeDone body ?h))"
      by (rule prefix_order.trans)
    with True show ?thesis by (simp add: Let_def)
  next
    case False
    then show ?thesis by (simp add: Let_def)
  qed
next
  case (7 body h)
  show ?case
  proof (cases "stepCallback h")
    case True
    with 7 have "prefix (history h) (history (run body (h\<lparr>stepCallback := False\<rparr>)))"
      by simp
    moreover have "prefix (history (run body (h\<lparr>stepCallback := False\<rparr>)))
        (history (changeDoneEnd (run body (h\<lparr>stepCallback := False\<rparr>))))"
      by (rule changeDoneEnd_grows)
    ultimately show ?thesis
      using True prefix_order.trans by fastforce
  next
    case False
    then show ?thesis by (simp add: changeDoneEnd_grows)
  qed
qed

lemma follow_snoc:
  "follow p (l @ [x]) = (case follow p l of None \<Rightarrow> None | Some q \<Rightarrow> follow q [x])"
  by (rule follow_append)

lemma idle:
  "follow (0, False) (history h) = Some (0, True) \<Longrightarrow>
   follow (0, False) (history (run cs h)) \<noteq> None \<Longrightarrow>
   history (run cs h) = history h \<and> change_count (run cs h) = change_count h \<and>
   pending_changes (run cs h) = pending_changes h"
  "follow (0, False) (history h) = Some (0, True) \<Longrightarrow>
   follow (0, False) (history (perform c h)) \<noteq> None \<Longrightarrow>
   history (perform c h) = history h \<and> change_count (perform c h) = change_count h \<and>
   pending_changes (perform c h) = pending_changes h"
  "prefix (history h) (history (changeDone body h))"
proof (induction cs h and c h and body h rule: run_perform_changeDone.induct)
  case (1 h)
  show ?case by simp
next
  case (2 c cs h)
  have "prefix (history (perform c h)) (history (run cs (perform c h)))"
    by (rule grows)
  with 2(4) have "follow (0, False) (history (perform c h)) \<noteq> None"
    using follow_prefix by fastforce
  with 2(1) 2(3) have same: "history (perform c h) = history h"
    "change_count (perform c h) = change_count h"
    "pending_changes (perform c h) = pending_changes h"
    by simp_all
  with 2(2) [of] 2(3) 2(4) show ?case
    by simp
next
  case (3 h)
  then show ?case by (simp add: doStep_def follow_snoc)
next
  case (4 h)
  show ?case by (simp add: setDoStepCallback_def)
next
  case (5 body h)
  let ?h = "h\<lparr>history := history h @ [Completed]\<rparr>"
  have "prefix (history ?h) (history (changeDone body ?h))"
    by (rule grows)
  with 5(3) have "follow (0, False) (history ?h) \<noteq> None"
    using follow_prefix by fastforce
  with 5(2) show ?case
    by (simp add: follow_snoc)
next
  case (6 body h)
  let ?h = "h\<lparr>pending_changes := False, history := history h @ [Finalized]\<rparr>"
  have "prefix (history ?h) (history (changeDone body ?h))"
    by (rule grows)
  with 6(3) have "follow (0, False) (history ?h) \<noteq> None"
    using follow_prefix by (fastforce simp add: Let_def split: if_splits)
  with 6(2) show ?case
    by (simp add: follow_snoc)
next
  case (7 body h)
  show ?case by (rule grows)
qed

lemma tracks_doStep:
  assumes "tracks d h" and "follow (0, False) (history (doStep h)) \<noteq> None"
  shows "tracks d (doStep h) \<and> settled (doStep h)"
proof -
  from assms(1) obtain out fin where
    f: "follow (0, False) (history h) = Some (out, fin)"
    and c: "change_count h = int out + int d"
    and p: "pending_changes h = (\<not> fin)"
    and n: "count_list (history h) Fired \<le> 1"
    and q: "Fired \<in> set (history h) \<longrightarrow> fin \<and> out = 0 \<and> d = 0 \<and> last (history h) = Fired"
    unfolding tracks_def by blast
  from assms(2) f have nf: "\<not> fin"
    by (auto simp add: doStep_def follow_snoc split: if_splits)
  with f have f': "follow (0, False) (history (doStep h)) = Some (Suc out, fin)"
    by (simp add: doStep_def follow_snoc)
  from q nf have "Fired \<notin> set (history h)" by blast
  with f' c p n nf have "tracks d (doStep h)"
    unfolding tracks_def by (auto simp add: doStep_def)
  moreover from c have "settled (doStep h)"
    by (simp add: settled_def doStep_def)
  ultimately show ?thesis ..
qed

lemma tracks_completed:
  assumes "tracks d h" and "follow (0, False) (history h @ [Completed]) \<noteq> None"
  shows "tracks (Suc d) (h\<lparr>history := history h @ [Completed]\<rparr>)"
proof -
  from assms(1) obtain out fin where
    f: "follow (0, False) (history h) = Some (out, fin)"
    and c: "change_count h = int out + int d"
    and p: "pending_changes h = (\<not> fin)"
    and n: "count_list (history h) Fired \<le> 1"
    and q: "Fired \<in> set (history h) \<longrightarrow> fin \<and> out = 0 \<and> d = 0 \<and> last (history h) = Fired"
    unfolding tracks_def by blast
  from assms(2) f have pos: "out \<noteq> 0"
    by (auto simp add: follow_snoc split: if_splits)
  with f have f': "follow (0, False) (history h @ [Completed]) = Some (out - 1, fin)"
    by (simp add: follow_snoc)
  from q pos have "Fired \<notin> set (history h)" by blast
  with f' c p n pos show ?thesis
    unfolding tracks_def by auto
qed

lemma tracks_changeDoneEnd:
  assumes "tracks (Suc d) h"
  shows "tracks d (changeDoneEnd h) \<and> settled (changeDoneEnd h)"
proof -
  from assms obtain out fin where
    f: "follow (0, False) (history h) = Some (out, fin)"
    and c: "change_count h = int out + int (Suc d)"
    and p: "pending_changes h = (\<not> fin)"
    and n: "count_list (history h) Fired \<le> 1"
    and q: "Fired \<in> set (history h) \<longrightarrow> fin \<and> out = 0 \<and> Suc d = 0 \<and> last (history h) = Fired"
    unfolding tracks_def by blast
  from q have nofire: "Fired \<notin> set (history h)" by blast
  have s: "settled (changeDoneEnd h)"
    by (auto simp add: settled_def changeDoneEnd_def Let_def)
  show ?thesis
  proof (cases "out = 0 \<and> d = 0 \<and> fin")
    case True
    with c p have e: "changeDoneEnd h = h\<lparr>change_count := 0, history := history h @ [Fired]\<rparr>"
      by (simp add: changeDoneEnd_def Let_def)
    from f True have "follow (0, False) (history h @ [Fired]) = Some (0, True)"
      by (simp add: follow_snoc)
    with True p nofire have "tracks d (changeDoneEnd h)"
      unfolding tracks_def e by auto
    with s show ?thesis by simp
  next
    case False
    with c p have e: "changeDoneEnd h = h\<lparr>change_count := change_count h - 1\<rparr>"
      by (auto simp add: changeDoneEnd_def Let_def)
    from f c p n nofire have "tracks d (changeDoneEnd h)"
      unfolding tracks_def e by auto
    with s show ?thesis by simp
  qed
qed

lemma tracks_finalize:
  assumes "tracks d h" and "follow (0, False) (history h @ [Finalized]) \<noteq> None"
  shows "follow (0, False) (history h @ [Finalized]) = Some (nat (change_count h) - d, True)"
    and "Fired \<notin> set (history h)"
    and "change_count h \<noteq> 0 \<Longrightarrow>
         tracks d (h\<lparr>pending_changes := False, history := history h @ [Finalized]\<rparr>)"
    and "change_count h = 0 \<Longrightarrow> d = 0"
proof -
  from assms(1) obtain out fin where
    f: "follow (0, False) (history h) = Some (out, fin)"
    and c: "change_count h = int out + int d"
    and p: "pending_changes h = (\<not> fin)"
    and n: "count_list (history h) Fired \<le> 1"
    and q: "Fired \<in> set (history h) \<longrightarrow> fin \<and> out = 0 \<and> d = 0 \<and> last (history h) = Fired"
    unfolding tracks_def by blast
  from assms(2) f have nf: "\<not> fin"
    by (auto simp add: follow_snoc split: if_splits)
  with f have f': "follow (0, False) (history h @ [Finalized]) = Some (out, True)"
    by (simp add: follow_snoc)
  with c show "follow (0, False) (history h @ [Finalized]) = Some (nat (change_count h) - d, True)"
    by simp
  from q nf show nofire: "Fired \<notin> set (history h)" by blast
  from c show "change_count h = 0 \<Longrightarrow> d = 0" by simp
  from f' c n nofire show "tracks d (h\<lparr>pending_changes := False, history := history h @ [Finalized]\<rparr>)"
    unfolding tracks_def by auto
qed

lemma tracks_stepCallback [simp]:
  "tracks d (h\<lparr>stepCallback := b\<rparr>) = tracks d h"
  by (simp add: tracks_def)

lemma tracks_busy: "tracks (Suc d) h \<Longrightarrow> settled (h\<lparr>stepCallback := b\<rparr>)"
  by (auto simp add: tracks_def settled_def)

lemma null_frame:
  assumes "change_count h = 0" and "\<not> pending_changes h"
    and "follow (0, False) (history h) = Some (0, True)" and "Fired \<notin> set (history h)"
  shows "tracks 0 (changeDoneEnd h) \<and> settled (changeDoneEnd h)"
proof -
  from assms(1,2) have e: "changeDoneEnd h = h\<lparr>history := history h @ [Fired]\<rparr>"
    by (simp add: changeDoneEnd_def)
  from assms(3) have "follow (0, False) (history h @ [Fired]) = Some (0, True)"
    by (simp add: follow_snoc)
  with assms(1,2,4) show ?thesis
    unfolding e tracks_def settled_def by auto
qed

lemma barrier_invariant:
  "tracks d h \<Longrightarrow> settled h \<Longrightarrow> follow (0, False) (history (run cs h)) \<noteq> None \<Longrightarrow>
   tracks d (run cs h) \<and> settled (run cs h)"
  "tracks d h \<Longrightarrow> settled h \<Longrightarrow> follow (0, False) (history (perform c h)) \<noteq> None \<Longrightarrow>
   tracks d (perform c h) \<and> settled (perform c h)"
  "tracks (Suc d) h \<Longrightarrow> follow (0, False) (history (changeDone body h)) \<noteq> None \<Longrightarrow>
   tracks d (changeDone body h) \<and> settled (changeDone body h)"
proof (induction cs h and c h and body h arbitrary: d and d and d
    rule: run_perform_changeDone.induct)
  case (1 h)
  then show ?case by simp
next
  case (2 c cs h)
  have "prefix (history (perform c h)) (history (run cs (perform c h)))"
    by (rule grows)
  with "2.prems"(3) have "follow (0, False) (history (perform c h)) \<noteq> None"
    using follow_prefix by fastforce
  with "2.prems"(1,2) have "tracks d (perform c h) \<and> settled (perform c h)"
    by (rule "2.IH"(1))
  with "2.prems"(3) show ?case
    using "2.IH"(2) [of d] by simp
next
  case (3 h)
  then show ?case
    using tracks_doStep [of d h] by simp
next
  case (4 h)
  then show ?case
    by (simp add: setDoStepCallback_def settled_def)
next
  case (5 body h)
  let ?h = "h\<lparr>history := history h @ [Completed]\<rparr>"
  have "prefix (history ?h) (history (changeDone body ?h))"
    by (rule grows)
  with "5.prems"(3) have "follow (0, False) (history h @ [Completed]) \<noteq> None"
    using follow_prefix by fastforce
  with "5.prems"(1) have "tracks (Suc d) ?h"
    by (rule tracks_completed)
  with "5.prems"(3) show ?case
    using "5.IH" [of d] by simp
next
  case (6 body h)
  let ?h = "h\<lparr>pending_changes := False, history := history h @ [Finalized]\<rparr>"
  have "prefix (history ?h) (history (changeDone body ?h))"
    by (rule grows)
  with "6.prems"(3) have ok: "follow (0, False) (history h @ [Finalized]) \<noteq> None"
    using follow_prefix by (fastforce simp add: Let_def split: if_splits)
  note fin = tracks_finalize [OF "6.prems"(1) ok]
  show ?case
  proof (cases "change_count h = 0")
    case False
    with fin(3) have "tracks d ?h" by simp
    moreover from False have "settled ?h"
      by (simp add: settled_def)
    ultimately show ?thesis
      using False by (simp add: Let_def)
  next
    case True
    with fin(4) have d: "d = 0" by simp
    from fin(1) True have start: "follow (0, False) (history ?h) = Some (0, True)"
      by simp
    let ?b = "if stepCallback ?h then run body (?h\<lparr>stepCallback := False\<rparr>) else ?h"
    have call: "perform (Finalize body) h = changeDoneEnd ?b"
      using True by (simp add: Let_def)
    have "prefix (history ?b) (history (changeDoneEnd ?b))"
      by (rule changeDoneEnd_grows)
    with "6.prems"(3) call have "follow (0, False) (history ?b) \<noteq> None"
      using follow_prefix by fastforce
    with start have same: "history ?b = history ?h \<and> change_count ?b = change_count ?h \<and>
        pending_changes ?b = pending_changes ?h"
      using idle(1) [of "?h\<lparr>stepCallback := False\<rparr>" body] by (cases "stepCallback h") simp_all
    with True start fin(2) have "tracks 0 (changeDoneEnd ?b) \<and> settled (changeDoneEnd ?b)"
      by (intro null_frame) simp_all
    with call d show ?thesis by simp
  qed
next
  case (7 body h)
  let ?b = "if stepCallback h then run body (h\<lparr>stepCallback := False\<rparr>) else h"
  have "prefix (history ?b) (history (changeDoneEnd ?b))"
    by (rule changeDoneEnd_grows)
  with "7.prems"(2) have ok: "follow (0, False) (history ?b) \<noteq> None"
    using follow_prefix by fastforce
  have "tracks (Suc d) ?b"
  proof (cases "stepCallback h")
    case True
    from "7.prems"(1) have "tracks (Suc d) (h\<lparr>stepCallback := False\<rparr>)"
      and "settled (h\<lparr>stepCallback := False\<rparr>)"
      by (simp_all add: tracks_busy)
    with True ok show ?thesis
      using "7.IH" [of "Suc d"] by simp
  next
    case False
    with "7.prems"(1) show ?thesis by simp
  qed
  then show ?case
    using tracks_changeDoneEnd [of d ?b] by simp
qed

lemma follow_counts:
  "follow (out0, fin0) l = Some (out, fin) \<Longrightarrow>
   out0 + count_list l Submitted = count_list l Completed + out \<and>
   fin = (fin0 \<or> Finalized \<in> set l)"
  by (induction "(out0, fin0)" l arbitrary: out0 fin0 rule: follow.induct)
     (auto split: if_splits)

lemma finished_phase:
  assumes "h = run cs (initHandler h0)"
    and "follow (0, False) (history h) = Some (0, True)"
  shows "count_list (history h) Fired = 1 \<and> history h \<noteq> [] \<and> last (history h) = Fired"
proof -
  have "tracks 0 (initHandler h0)" and "settled (initHandler h0)"
    by (auto simp add: tracks_def settled_def initHandler_def)
  moreover from assms have "follow (0, False) (history (run cs (initHandler h0))) \<noteq> None"
    by simp
  ultimately have "tracks 0 (run cs (initHandler h0)) \<and> settled (run cs (initHandler h0))"
    by (rule barrier_invariant(1))
  with assms(1) have t: "tracks 0 h" and s: "settled h"
    by simp_all
  from t assms(2) have c: "change_count h = 0" and p: "\<not> pending_changes h"
    and once: "count_list (history h) Fired \<le> 1"
    and at_end: "Fired \<in> set (history h) \<longrightarrow> last (history h) = Fired"
    by (auto simp add: tracks_def)
  from s c p have fired: "Fired \<in> set (history h)"
    by (simp add: settled_def)
  then have "count_list (history h) Fired \<noteq> 0"
    by (simp add: count_list_0_iff)
  with once have "count_list (history h) Fired = 1"
    by simp
  moreover from fired at_end have "history h \<noteq> []" and "last (history h) = Fired"
    by auto
  ultimately show ?thesis
    by simp
qed

text \<open>
  C1.  Start a phase with \<open>initHandler\<close> on any handler and let any calls follow, step
  callbacks included.  If what happened is \<open>N\<close> submissions, then \<^verbatim>\<open>finalize\<close>, and
  one completion for every submitted operation, a completion never coming before its
  submission and otherwise in any order with the submissions and with \<^verbatim>\<open>finalize\<close>,
  then the completion callback was invoked exactly once, and this is the last thing
  that happened: all \<open>N\<close> completions and \<^verbatim>\<open>finalize\<close> are before it.
\<close>

theorem phase_barrier:
  assumes "h = run cs (initHandler h0)"
    and "follow (0, False) (history h) = Some (0, True)"
    and "count_list (history h) Submitted = N"
  shows "count_list (history h) Fired = 1 \<and>
         (\<exists>before. history h = before @ [Fired] \<and> Fired \<notin> set before \<and>
            Finalized \<in> set before \<and> count_list before Completed = N \<and>
            count_list before Submitted = N)"
proof -
  from finished_phase [OF assms(1,2)]
  have one: "count_list (history h) Fired = 1"
    and "history h \<noteq> []" and "last (history h) = Fired"
    by simp_all
  then have split: "history h = butlast (history h) @ [Fired]"
    by (metis append_butlast_last_id)
  have "count_list (butlast (history h) @ [Fired]) Fired = 1"
    using one split by simp
  then have "count_list (butlast (history h)) Fired = 0"
    by simp
  then have none: "Fired \<notin> set (butlast (history h))"
    by (simp add: count_list_0_iff)
  from follow_counts [OF assms(2)] assms(3)
  have "count_list (history h) Completed = N" and "Finalized \<in> set (history h)"
    by simp_all
  then have "count_list (butlast (history h) @ [Fired]) Completed = N"
    and "Finalized \<in> set (butlast (history h) @ [Fired])"
    and "count_list (butlast (history h) @ [Fired]) Submitted = N"
    using split assms(3) by simp_all
  then have "count_list (butlast (history h)) Completed = N"
    and "Finalized \<in> set (butlast (history h))"
    and "count_list (butlast (history h)) Submitted = N"
    by simp_all
  with split none one show ?thesis
    by blast
qed

text \<open>
  Three steps, the third one submitted by the step callback of the first completion,
  which also finalizes: the callback fires once, at the end.  And no step at all:
  \<^verbatim>\<open>finalize\<close> fires the callback itself.
\<close>

theorem phase_barrier_witness:
  "history (run examplePhase (initHandler staleHandler)) =
     [Submitted, Submitted, Completed, Submitted, Finalized, Completed, Completed, Fired] \<and>
   follow (0, False) (history (run examplePhase (initHandler staleHandler))) = Some (0, True) \<and>
   count_list (history (run examplePhase (initHandler staleHandler))) Submitted = 3 \<and>
   count_list (history (run examplePhase (initHandler staleHandler))) Fired = 1 \<and>
   history (run [Finalize []] (initHandler staleHandler)) = [Finalized, Fired] \<and>
   count_list (history (run [Finalize []] (initHandler staleHandler))) Fired = 1"
proof -
  have trace: "history (run examplePhase (initHandler staleHandler)) =
     [Submitted, Submitted, Completed, Submitted, Finalized, Completed, Completed, Fired]"
    by (simp add: examplePhase_def staleHandler_def initHandler_def doStep_def
        setDoStepCallback_def changeDoneEnd_def)
  have protocol: "follow (0, False) (history (run examplePhase (initHandler staleHandler))) =
      Some (0, True)"
    by (simp add: trace)
  have submitted: "count_list (history (run examplePhase (initHandler staleHandler))) Submitted = 3"
    by (simp add: trace)
  from phase_barrier [OF refl protocol submitted]
  have three: "count_list (history (run examplePhase (initHandler staleHandler))) Fired = 1"
    by blast
  have trace0: "history (run [Finalize []] (initHandler staleHandler)) = [Finalized, Fired]"
    by (simp add: staleHandler_def initHandler_def changeDoneEnd_def)
  have protocol0: "follow (0, False) (history (run [Finalize []] (initHandler staleHandler))) =
      Some (0, True)"
    unfolding trace0 by simp
  have submitted0: "count_list (history (run [Finalize []] (initHandler staleHandler))) Submitted = 0"
    unfolding trace0 by simp
  from phase_barrier [OF refl protocol0 submitted0]
  have none: "count_list (history (run [Finalize []] (initHandler staleHandler))) Fired = 1"
    by blast
  from trace protocol submitted three trace0 none show ?thesis
    by blast
qed

text \<open>
  When no step callback calls the handler again, the calls themselves are the history:
  every call is recorded as it is made, and a sequence of calls that is \<open>N\<close>
  submissions, then \<^verbatim>\<open>finalize\<close>, with the completions in between in any order that puts
  none before its submission, leaves this very sequence followed by the one invocation
  of the completion callback.
\<close>

lemma calls_changeDoneEnd: "calls (history (changeDoneEnd h)) = calls (history h)"
  by (simp add: changeDoneEnd_def Let_def)

lemma calls_perform:
  "plain c \<Longrightarrow> calls (history (perform c h)) = calls (history h) @ recorded c"
  by (cases c) (simp_all add: doStep_def setDoStepCallback_def calls_changeDoneEnd Let_def)

lemma calls_run:
  "list_all plain cs \<Longrightarrow>
   calls (history (run cs h)) = calls (history h) @ concat (map recorded cs)"
  by (induction cs arbitrary: h) (simp_all add: calls_perform)

lemma follow_calls: "follow p (calls l) = follow p l"
  by (induction p l rule: follow.induct) simp_all

lemma plain_phase:
  assumes "list_all plain cs"
    and "follow (0, False) (concat (map recorded cs)) = Some (0, True)"
  shows "history (run cs (initHandler h0)) = concat (map recorded cs) @ [Fired]"
proof -
  let ?h = "run cs (initHandler h0)"
  from assms(1) have calls: "calls (history ?h) = concat (map recorded cs)"
    using calls_run [of cs "initHandler h0"] by (simp add: initHandler_def)
  with assms(2) have "follow (0, False) (history ?h) = Some (0, True)"
    using follow_calls [of "(0, False)" "history ?h"] by simp
  from finished_phase [OF refl this]
  have "count_list (history ?h) Fired = 1"
    and "history ?h \<noteq> []" and "last (history ?h) = Fired"
    by simp_all
  then have split: "history ?h = butlast (history ?h) @ [Fired]"
    by (metis append_butlast_last_id)
  then have "calls (history ?h) = calls (butlast (history ?h) @ [Fired])"
    by metis
  then have "calls (history ?h) = calls (butlast (history ?h))"
    by simp
  moreover have "count_list (butlast (history ?h) @ [Fired]) Fired = 1"
    using \<open>count_list (history ?h) Fired = 1\<close> split by simp
  then have "Fired \<notin> set (butlast (history ?h))"
    by (simp add: count_list_0_iff)
  then have "calls (butlast (history ?h)) = butlast (history ?h)"
    by (auto simp add: filter_id_conv)
  ultimately have "butlast (history ?h) = concat (map recorded cs)"
    using calls by simp
  with split show ?thesis
    by simp
qed

end
